theory Spec2Isabelle
  imports Complex_Main "HOL-Library.Word"
begin


section \<open>JavaScript strings\<close>

text \<open>
  A JavaScript string is a sequence of UTF-16 code units; \<^verbatim>\<open>length\<close> and
  \<^verbatim>\<open>slice\<close> count code units. \<open>js\<close> writes an ASCII literal of the source as code
  units.
\<close>

type_synonym jsstring = "16 word list"

definition js :: "string \<Rightarrow> jsstring" where
  "js s = map of_char s"

text \<open>\<^verbatim>\<open>String.prototype.trim\<close> removes white space and line terminators at both ends.\<close>

definition is_js_space :: "16 word \<Rightarrow> bool" where
  "is_js_space u \<longleftrightarrow>
     u \<in> {0x9, 0xA, 0xB, 0xC, 0xD, 0x20, 0xA0, 0x1680, 0x2028, 0x2029, 0x202F, 0x205F, 0x3000, 0xFEFF}
     \<or> (0x2000 \<le> u \<and> u \<le> 0x200A)"

definition trim :: "jsstring \<Rightarrow> jsstring" where
  "trim s = rev (dropWhile is_js_space (rev (dropWhile is_js_space s)))"


section \<open>Bounded-concurrency mapper (util/concurrency.ts)\<close>

text \<open>
  \<^verbatim>\<open>mapWithConcurrency(items, mapper, options)\<close> runs on one thread. The embedding
  makes the event loop explicit: a pool state holds the closure variables of the promise
  executor, the synchronous parts of \<^verbatim>\<open>runTask\<close> are functions on that state, and the
  only asynchronous event is that one of the promises returned by the mapper settles.
  The order in which promises settle is a free parameter (a schedule).

  A call of the mapper either throws before returning, or returns a promise that later
  fulfils or rejects. The optional \<^verbatim>\<open>onProgress\<close> callback either returns or throws,
  depending on the arguments it is given. The counters \<^verbatim>\<open>currentIndex\<close>,
  \<^verbatim>\<open>activeCount\<close> and \<^verbatim>\<open>completedCount\<close> are integers; \<^verbatim>\<open>maxConcurrent\<close> is
  whatever number the caller passes.
\<close>

text \<open>
  A JavaScript number: \<^verbatim>\<open>NaN\<close>, an infinity, or a finite value (every finite double is
  a rational). The code only compares such numbers and takes their maximum and minimum.
  A comparison with \<^verbatim>\<open>NaN\<close> is false, and \<^verbatim>\<open>Math.max\<close> and \<^verbatim>\<open>Math.min\<close> give
  \<^verbatim>\<open>NaN\<close> as soon as one argument is \<^verbatim>\<open>NaN\<close>.
\<close>

datatype number = NaN | NegInfinity | PosInfinity | Num rat

fun jsLess :: "number \<Rightarrow> number \<Rightarrow> bool" where
  "jsLess (Num a) (Num b) = (a < b)"
| "jsLess (Num a) PosInfinity = True"
| "jsLess NegInfinity (Num b) = True"
| "jsLess NegInfinity PosInfinity = True"
| "jsLess _ _ = False"

definition mathMax :: "number \<Rightarrow> number \<Rightarrow> number" where
  "mathMax a b = (if a = NaN \<or> b = NaN then NaN else if jsLess a b then b else a)"

definition mathMin :: "number \<Rightarrow> number \<Rightarrow> number" where
  "mathMin a b = (if a = NaN \<or> b = NaN then NaN else if jsLess b a then b else a)"

record ('r, 'e) TaskResult =
  index :: nat
  success :: bool
  data :: "'r option"
  error :: "'e option"

datatype callback_end = ReturnsNormally | ThrowsError

record ConcurrencyPoolOptions =
  maxConcurrent :: "number option"
  onProgress :: "(nat \<Rightarrow> nat \<Rightarrow> callback_end) option"

datatype ('r, 'e) settled = Fulfilled 'r | Rejected 'e

datatype ('r, 'e) mapper_call = Throws 'e | Returns "('r, 'e) settled"

type_synonym ('a, 'r, 'e) mapper = "'a option \<Rightarrow> nat \<Rightarrow> ('r, 'e) mapper_call"

record ('a, 'r, 'e) pool =
  results :: "('r, 'e) TaskResult option list"
  completedCount :: nat
  currentIndex :: nat
  activeCount :: int
  resolved :: bool
  awaiting :: "(nat \<times> ('r, 'e) settled) list"
  progressCalls :: "(nat \<times> nat) list"
  mapperCalls :: "('a option \<times> nat) list"
  peakActive :: int

text \<open>\<^verbatim>\<open>let hasError = false\<close> is never assigned again in the source.\<close>

definition hasError :: bool where
  "hasError = False"

text \<open>\<^verbatim>\<open>items[index]\<close>: reading past the end of a JavaScript array gives \<^verbatim>\<open>undefined\<close>.\<close>

definition item_at :: "'a list \<Rightarrow> nat \<Rightarrow> 'a option" where
  "item_at items i = (if i < length items then Some (items ! i) else None)"

text \<open>\<^verbatim>\<open>results[index] = v\<close>: writing past the end of a JavaScript array extends it,
  leaving holes in between.\<close>

definition array_set :: "'x option list \<Rightarrow> nat \<Rightarrow> 'x \<Rightarrow> 'x option list" where
  "array_set xs i v =
     (if i < length xs then xs[i := Some v]
      else xs @ replicate (i - length xs) None @ [Some v])"

definition taskResult :: "nat \<Rightarrow> ('r, 'e) settled \<Rightarrow> ('r, 'e) TaskResult" where
  "taskResult i outcome =
     (case outcome of
        Fulfilled d \<Rightarrow> \<lparr>index = i, success = True, data = Some d, error = None\<rparr>
      | Rejected e \<Rightarrow> \<lparr>index = i, success = False, data = None, error = Some e\<rparr>)"

text \<open>\<^verbatim>\<open>updateProgress\<close> counts the entries written so far and calls
  \<^verbatim>\<open>options?.onProgress?.(completedCount, items.length)\<close>; the arguments are recorded in
  \<open>progressCalls\<close>. It ends the way the callback ends.\<close>

definition updateProgress :: "ConcurrencyPoolOptions \<Rightarrow> nat \<Rightarrow> ('a, 'r, 'e) pool
    \<Rightarrow> callback_end \<times> ('a, 'r, 'e) pool" where
  "updateProgress options n st =
     (let c = length (filter (\<lambda>r. r \<noteq> None) (results st));
          st1 = st\<lparr>completedCount := c, progressCalls := progressCalls st @ [(c, n)]\<rparr>
      in case onProgress options of
           None \<Rightarrow> (ReturnsNormally, st1)
         | Some f \<Rightarrow> (f c n, st1))"

definition checkComplete :: "nat \<Rightarrow> ('a, 'r, 'e) pool \<Rightarrow> ('a, 'r, 'e) pool" where
  "checkComplete n st =
     (if currentIndex st \<ge> n \<and> activeCount st = 0 \<and> \<not> hasError
      then st\<lparr>resolved := True\<rparr> else st)"

text \<open>
  The part of \<^verbatim>\<open>runTask\<close> after the \<^verbatim>\<open>await\<close>, up to the last statement of
  \<^verbatim>\<open>finally\<close>: the assignment in \<^verbatim>\<open>try\<close> or in \<^verbatim>\<open>catch\<close>, then
  \<^verbatim>\<open>activeCount--; updateProgress(); checkComplete()\<close>. When the callback throws, the
  exception leaves \<^verbatim>\<open>finally\<close> at once: \<^verbatim>\<open>checkComplete\<close> is not called, and the
  promise of this \<^verbatim>\<open>runTask\<close> call, which nothing awaits, rejects.
\<close>

definition finishTask :: "ConcurrencyPoolOptions \<Rightarrow> nat \<Rightarrow> nat \<Rightarrow> ('r, 'e) settled \<Rightarrow> ('a, 'r, 'e) pool
    \<Rightarrow> callback_end \<times> ('a, 'r, 'e) pool" where
  "finishTask options n i outcome st =
     (let st1 = st\<lparr>results := array_set (results st) i (taskResult i outcome)\<rparr>;
          st2 = st1\<lparr>activeCount := activeCount st1 - 1\<rparr>;
          r = updateProgress options n st2
      in case fst r of
           ReturnsNormally \<Rightarrow> (ReturnsNormally, checkComplete n (snd r))
         | ThrowsError \<Rightarrow> (ThrowsError, snd r))"

text \<open>
  \<^verbatim>\<open>runTask\<close> up to its \<^verbatim>\<open>await\<close>, and \<^verbatim>\<open>afterAwait\<close>, the rest of its body, which
  ends by starting the next task if one is left and the callback has not thrown. A mapper
  that throws lands in \<^verbatim>\<open>catch\<close> at once, so the rest of the body runs inside the same
  call. The test \<^verbatim>\<open>activeCount < maxConcurrent\<close> compares numbers.
\<close>

function runTask :: "'a list \<Rightarrow> ('a, 'r, 'e) mapper \<Rightarrow> ConcurrencyPoolOptions \<Rightarrow> number \<Rightarrow> nat
    \<Rightarrow> ('a, 'r, 'e) pool \<Rightarrow> ('a, 'r, 'e) pool"
  and afterAwait :: "'a list \<Rightarrow> ('a, 'r, 'e) mapper \<Rightarrow> ConcurrencyPoolOptions \<Rightarrow> number \<Rightarrow> nat
    \<Rightarrow> ('r, 'e) settled \<Rightarrow> ('a, 'r, 'e) pool \<Rightarrow> ('a, 'r, 'e) pool"
where
  "runTask items mapper options maxC i st =
     (if hasError then st
      else
        let st1 = st\<lparr>activeCount := activeCount st + 1,
                     mapperCalls := mapperCalls st @ [(item_at items i, i)],
                     peakActive := max (peakActive st) (activeCount st + 1)\<rparr>
        in case mapper (item_at items i) i of
             Throws e \<Rightarrow> afterAwait items mapper options maxC i (Rejected e) st1
           | Returns p \<Rightarrow> st1\<lparr>awaiting := awaiting st1 @ [(i, p)]\<rparr>)"
| "afterAwait items mapper options maxC i outcome st =
     (let r = finishTask options (length items) i outcome st;
          st4 = snd r
      in if fst r = ReturnsNormally \<and> currentIndex st4 < length items \<and>
            jsLess (Num (of_int (activeCount st4))) maxC \<and> \<not> hasError
         then runTask items mapper options maxC (currentIndex st4) (st4\<lparr>currentIndex := currentIndex st4 + 1\<rparr>)
         else st4)"
  by pat_completeness auto
termination
  by (relation "measure (\<lambda>x. case x of
         Inl (items, mapper, options, maxC, i, st) \<Rightarrow> 2 * (length items - currentIndex st) + 1
       | Inr (items, mapper, options, maxC, i, outcome, st) \<Rightarrow> 2 * (length items - currentIndex st))")
     (auto simp: finishTask_def updateProgress_def checkComplete_def Let_def
           split: callback_end.splits option.splits)

text \<open>\<^verbatim>\<open>const maxConcurrent = Math.max(1, options?.maxConcurrent ?? 8)\<close>\<close>

definition effectiveMax :: "ConcurrencyPoolOptions \<Rightarrow> number" where
  "effectiveMax options = mathMax (Num 1) (case maxConcurrent options of None \<Rightarrow> Num 8 | Some c \<Rightarrow> c)"

text \<open>The loop \<^verbatim>\<open>for (let i = 0; i < initialBatch; i++)\<close> that starts the initial batch,
  from the given \<open>i\<close> on, with \<^verbatim>\<open>initialBatch = Math.min(maxConcurrent, items.length)\<close>.
  Each iteration runs \<^verbatim>\<open>const index = currentIndex++; runTask(index)\<close>.\<close>

function startBatch :: "'a list \<Rightarrow> ('a, 'r, 'e) mapper \<Rightarrow> ConcurrencyPoolOptions \<Rightarrow> number \<Rightarrow> nat
    \<Rightarrow> ('a, 'r, 'e) pool \<Rightarrow> ('a, 'r, 'e) pool" where
  "startBatch items mapper options maxC i st =
     (if jsLess (Num (of_nat i)) (mathMin maxC (Num (of_nat (length items))))
      then startBatch items mapper options maxC (i + 1)
             (runTask items mapper options maxC (currentIndex st) (st\<lparr>currentIndex := currentIndex st + 1\<rparr>))
      else st)"
  by pat_completeness auto
termination
  by (relation "measure (\<lambda>(items, mapper, options, maxC, i, st). length items - i)")
     (auto simp: mathMin_def elim: jsLess.elims split: if_splits)

definition emptyPool :: "nat \<Rightarrow> ('a, 'r, 'e) pool" where
  "emptyPool n = \<lparr>results = replicate n None, completedCount = 0, currentIndex = 0,
     activeCount = 0, resolved = False, awaiting = [], progressCalls = [],
     mapperCalls = [], peakActive = 0\<rparr>"

text \<open>The synchronous part of a call: the body of \<^verbatim>\<open>mapWithConcurrency\<close> up to the
  end of the promise executor. For empty input the array is returned at once.\<close>

definition startPool :: "'a list \<Rightarrow> ('a, 'r, 'e) mapper \<Rightarrow> ConcurrencyPoolOptions \<Rightarrow> ('a, 'r, 'e) pool" where
  "startPool items mapper options =
     (let maxC = effectiveMax options;
          st0 = emptyPool (length items)
      in if length items = 0 then st0\<lparr>resolved := True\<rparr>
         else startBatch items mapper options maxC 0 st0)"

text \<open>One asynchronous event: the \<open>k\<close>-th oldest outstanding mapper promise settles and
  the task that awaits it resumes. \<open>None\<close> when there is no such promise.\<close>

definition settle :: "'a list \<Rightarrow> ('a, 'r, 'e) mapper \<Rightarrow> ConcurrencyPoolOptions \<Rightarrow> number \<Rightarrow> nat
    \<Rightarrow> ('a, 'r, 'e) pool \<Rightarrow> ('a, 'r, 'e) pool option" where
  "settle items mapper options maxC k st =
     (if k < length (awaiting st)
      then Some (afterAwait items mapper options maxC (fst (awaiting st ! k)) (snd (awaiting st ! k))
                   (st\<lparr>awaiting := take k (awaiting st) @ drop (Suc k) (awaiting st)\<rparr>))
      else None)"

fun runSchedule :: "'a list \<Rightarrow> ('a, 'r, 'e) mapper \<Rightarrow> ConcurrencyPoolOptions \<Rightarrow> number \<Rightarrow> nat list
    \<Rightarrow> ('a, 'r, 'e) pool \<Rightarrow> ('a, 'r, 'e) pool option" where
  "runSchedule items mapper options maxC [] st = Some st"
| "runSchedule items mapper options maxC (k # ks) st =
     (case settle items mapper options maxC k st of
        None \<Rightarrow> None
      | Some st' \<Rightarrow> runSchedule items mapper options maxC ks st')"

text \<open>The pool after the call and the events of a schedule; \<open>None\<close> when the schedule
  names a promise that does not exist.\<close>

definition mapWithConcurrency :: "'a list \<Rightarrow> ('a, 'r, 'e) mapper \<Rightarrow> ConcurrencyPoolOptions \<Rightarrow> nat list \<Rightarrow> ('a, 'r, 'e) pool option" where
  "mapWithConcurrency items mapper options sched =
     runSchedule items mapper options (effectiveMax options) sched (startPool items mapper options)"

text \<open>What the caller receives once \<^verbatim>\<open>resolve(results)\<close> has run: the array itself.\<close>

definition returned :: "('a, 'r, 'e) pool \<Rightarrow> ('r, 'e) TaskResult option list option" where
  "returned st = (if resolved st then Some (results st) else None)"

definition is_async :: "('a, 'r, 'e) mapper \<Rightarrow> bool" where
  "is_async mapper = (\<forall>x i. \<exists>p. mapper x i = Returns p)"


text \<open>What the task for position \<open>i\<close> records: the way the mapper's call for that
  position ends, a throw being recorded like a rejection.\<close>

definition outcomeOf :: "('a, 'r, 'e) mapper \<Rightarrow> 'a list \<Rightarrow> nat \<Rightarrow> ('r, 'e) settled" where
  "outcomeOf mapper items i =
     (case mapper (item_at items i) i of Throws e \<Rightarrow> Rejected e | Returns p \<Rightarrow> p)"

definition expected :: "('a, 'r, 'e) mapper \<Rightarrow> 'a list \<Rightarrow> nat \<Rightarrow> ('r, 'e) TaskResult" where
  "expected mapper items i = taskResult i (outcomeOf mapper items i)"

text \<open>A callback that never throws, or none.\<close>

definition quiet :: "ConcurrencyPoolOptions \<Rightarrow> bool" where
  "quiet options \<longleftrightarrow> (case onProgress options of None \<Rightarrow> True | Some f \<Rightarrow> \<forall>c n. f c n = ReturnsNormally)"

text \<open>Invariants of the pool used in the proofs below. \<open>admits maxC a\<close>: a task was
  started only when fewer than \<open>maxC\<close> were active, so \<open>a\<close> active tasks mean
  \<open>a - 1 < maxC\<close>.\<close>

definition admits :: "number \<Rightarrow> int \<Rightarrow> bool" where
  "admits maxC a \<longleftrightarrow> a \<le> 0 \<or> jsLess (Num (of_int (a - 1))) maxC"

definition balanced :: "number \<Rightarrow> ('a, 'r, 'e) pool \<Rightarrow> bool" where
  "balanced maxC st \<longleftrightarrow>
     activeCount st = int (length (awaiting st)) \<and> admits maxC (activeCount st) \<and> admits maxC (peakActive st)"

definition pool_inv :: "'a list \<Rightarrow> ('a, 'r, 'e) mapper \<Rightarrow> number \<Rightarrow> ('a, 'r, 'e) pool \<Rightarrow> bool" where
  "pool_inv items mapper maxC st \<longleftrightarrow>
     currentIndex st \<le> length items \<and>
     distinct (map fst (awaiting st)) \<and>
     (\<forall>x \<in> set (awaiting st). fst x < currentIndex st \<and> snd x = outcomeOf mapper items (fst x)) \<and>
     results st = map (\<lambda>i. if i < currentIndex st \<and> i \<notin> fst ` set (awaiting st)
                            then Some (expected mapper items i) else None) [0..<length items] \<and>
     activeCount st = int (length (awaiting st)) \<and>
     admits maxC (activeCount st) \<and>
     mapperCalls st = map (\<lambda>i. (item_at items i, i)) [0..<currentIndex st] \<and>
     length (progressCalls st) + length (awaiting st) = currentIndex st \<and>
     (resolved st \<longleftrightarrow> currentIndex st = length items \<and> awaiting st = [])"

section \<open>Snippet fetcher (mcp/tools/snippet_fetcher.ts)\<close>

text \<open>
  \<^verbatim>\<open>fetchSnippetsInParallel\<close> maps the requests through \<^verbatim>\<open>mapWithConcurrency\<close> with a
  mapper that tries the remote call up to \<^verbatim>\<open>retryAttempts + 1\<close> times. The remote
  service and the timer of each attempt are outside the program: their race is a
  parameter, which tells for each position, attempt number and call whether the call
  answers, throws, or is still running when the timer fires.

  The logger writes to a file and its calls can fail. The two calls that are awaited
  outside any \<^verbatim>\<open>try\<close>, the first and the last statement of the function, are part of
  the model: a rejection there rejects the whole call. A logger that cannot write fails
  at the first of them, before any request is made. The calls inside the mapper are
  taken to succeed.
\<close>

record SnippetFetchRequest =
  repo :: jsstring
  path :: jsstring
  startLine :: int
  endLine :: int
  contextLinesBefore :: "int option"
  contextLinesAfter :: "int option"

text \<open>Of \<^verbatim>\<open>FileSliceResponse\<close> the fetcher reads \<^verbatim>\<open>content\<close> and
  \<^verbatim>\<open>_meta?.warnings\<close> only.\<close>

record FileSliceResponse =
  content :: jsstring
  meta_warnings :: "jsstring list option"

record SnippetFetchResult =
  snippet_content :: jsstring
  warnings :: "jsstring list option"
  actualStartLine :: "int option"
  actualEndLine :: "int option"
  chunkStartLine :: "int option"
  chunkEndLine :: "int option"

datatype AbortSignal = AbortSignal (aborted: bool)

record SnippetFetchOptions =
  opt_maxConcurrent :: "number option"
  requestTimeoutMs :: "int option"
  retryAttempts :: "int option"
  signal :: "AbortSignal option"

text \<open>A thrown value is an \<^verbatim>\<open>Error\<close> object with a name and a message, or some other
  value (the REST client throws plain objects), kept as the text \<^verbatim>\<open>String(error)\<close>
  gives.\<close>

datatype thrown = ErrorObject (err_name: jsstring) (err_message: jsstring) | NotAnError jsstring

text \<open>\<^verbatim>\<open>error instanceof Error ? error : new Error(String(error))\<close>\<close>

fun asError :: "thrown \<Rightarrow> thrown" where
  "asError (ErrorObject n m) = ErrorObject n m"
| "asError (NotAnError s) = ErrorObject (js ''Error'') s"

text \<open>The arguments of one call of \<^verbatim>\<open>restGetFileSlice\<close>, with the delay of the timer
  that aborts its signal.\<close>

record file_slice_call =
  call_repo :: jsstring
  call_path :: jsstring
  call_start :: int
  call_end :: int
  call_timeout :: int

datatype attempt = Responds FileSliceResponse | Fails thrown | TimesOut

type_synonym service = "nat \<Rightarrow> nat \<Rightarrow> file_slice_call \<Rightarrow> attempt"

text \<open>When the timer fires first, \<^verbatim>\<open>controller.abort()\<close> makes \<^verbatim>\<open>fetch\<close> reject with
  a \<^verbatim>\<open>DOMException\<close> named \<^verbatim>\<open>AbortError\<close>, which is an instance of \<^verbatim>\<open>Error\<close>.\<close>

definition abortError :: thrown where
  "abortError = ErrorObject (js ''AbortError'') (js ''The operation was aborted.'')"

definition restGetFileSlice :: "service \<Rightarrow> nat \<Rightarrow> nat \<Rightarrow> file_slice_call \<Rightarrow> thrown + FileSliceResponse" where
  "restGetFileSlice service pos n call =
     (case service pos n call of
        Responds r \<Rightarrow> Inr r
      | Fails e \<Rightarrow> Inl e
      | TimesOut \<Rightarrow> Inl abortError)"

record fetch_metadata =
  md_actualStartLine :: int
  md_actualEndLine :: int
  md_chunkStartLine :: int
  md_chunkEndLine :: int

record fetched =
  result :: FileSliceResponse
  metadata :: fetch_metadata

datatype fetch_event = Attempt nat file_slice_call | Backoff nat

text \<open>\<^verbatim>\<open>request.contextLinesBefore || 0\<close>\<close>

definition orZero :: "int option \<Rightarrow> int" where
  "orZero v = (case v of None \<Rightarrow> 0 | Some n \<Rightarrow> n)"

definition callFor :: "int \<Rightarrow> SnippetFetchRequest \<Rightarrow> file_slice_call" where
  "callFor timeoutMs request =
     (let contextBefore = orZero (contextLinesBefore request);
          contextAfter = orZero (contextLinesAfter request);
          fetchStartLine = max 1 (startLine request - contextBefore);
          fetchEndLine = endLine request + contextAfter
      in \<lparr>call_repo = trim (repo request), call_path = path request,
          call_start = fetchStartLine, call_end = fetchEndLine, call_timeout = timeoutMs\<rparr>)"

text \<open>
  The \<^verbatim>\<open>for (let attempt = 0; attempt <= retryAttempts; attempt++)\<close> loop of the mapper,
  from the given attempt on, with \<^verbatim>\<open>lastError\<close> (\<open>None\<close> is \<^verbatim>\<open>undefined\<close>). It returns
  the attempts and delays made and the way the mapper's promise settles.
\<close>

function attemptLoop :: "service \<Rightarrow> int \<Rightarrow> int \<Rightarrow> nat \<Rightarrow> SnippetFetchRequest \<Rightarrow> nat \<Rightarrow> thrown option
    \<Rightarrow> fetch_event list \<Rightarrow> fetch_event list \<times> (fetched, thrown option) settled" where
  "attemptLoop service timeoutMs retry pos request n lastError evs =
     (if int n \<le> retry then
        (let call = callFor timeoutMs request;
             evs1 = evs @ [Attempt n call]
         in case restGetFileSlice service pos n call of
              Inr r \<Rightarrow>
                (evs1, Fulfilled \<lparr>result = r,
                   metadata = \<lparr>md_actualStartLine = call_start call, md_actualEndLine = call_end call,
                               md_chunkStartLine = startLine request, md_chunkEndLine = endLine request\<rparr>\<rparr>)
            | Inl e \<Rightarrow>
                if err_name (asError e) = js ''AbortError'' then (evs1, Rejected (Some e))
                else if int n < retry
                  then attemptLoop service timeoutMs retry pos request (n + 1) (Some e)
                         (evs1 @ [Backoff (2 ^ n * 100)])
                  else attemptLoop service timeoutMs retry pos request (n + 1) (Some e) evs1)
      else (evs, Rejected lastError))"
  by pat_completeness auto
termination
  by (relation "measure (\<lambda>(service, timeoutMs, retry, pos, request, n, lastError, evs). nat (retry + 1 - int n))")
     auto

text \<open>
  The mapper. It is an \<^verbatim>\<open>async\<close> function, so it always returns a promise. For an
  item that is \<^verbatim>\<open>undefined\<close>, reading \<^verbatim>\<open>request.repo\<close> throws a \<^verbatim>\<open>TypeError\<close> in
  \<^verbatim>\<open>try\<close> and again in \<^verbatim>\<open>catch\<close>, which rejects the promise; if the loop body never
  runs, \<^verbatim>\<open>throw lastError\<close> rejects it with \<^verbatim>\<open>undefined\<close>.
\<close>

definition typeError :: thrown where
  "typeError = ErrorObject (js ''TypeError'') (js ''undefined is not an object'')"

definition snippetMapper :: "service \<Rightarrow> int \<Rightarrow> int \<Rightarrow> (SnippetFetchRequest, fetched, thrown option) mapper" where
  "snippetMapper service timeoutMs retry item pos =
     (case item of
        None \<Rightarrow> Returns (Rejected (if 0 \<le> retry then Some typeError else None))
      | Some request \<Rightarrow> Returns (snd (attemptLoop service timeoutMs retry pos request 0 None [])))"

definition failurePlaceholder :: SnippetFetchResult where
  "failurePlaceholder = \<lparr>snippet_content = [], warnings = Some [js ''Failed to load snippet''],
     actualStartLine = None, actualEndLine = None, chunkStartLine = None, chunkEndLine = None\<rparr>"

text \<open>The body of the \<^verbatim>\<open>results.forEach\<close> callback; the fetched data is an object
  and so is truthy.\<close>

definition toSnippet :: "(fetched, thrown option) TaskResult \<Rightarrow> SnippetFetchResult" where
  "toSnippet r =
     (case data r of
        Some d \<Rightarrow>
          if success r
          then \<lparr>snippet_content = content (result d), warnings = meta_warnings (result d),
                actualStartLine = Some (md_actualStartLine (metadata d)),
                actualEndLine = Some (md_actualEndLine (metadata d)),
                chunkStartLine = Some (md_chunkStartLine (metadata d)),
                chunkEndLine = Some (md_chunkEndLine (metadata d))\<rparr>
          else failurePlaceholder
      | None \<Rightarrow> failurePlaceholder)"

text \<open>\<^verbatim>\<open>forEach\<close> skips the holes of an array.\<close>

fun snippetMapFrom :: "nat \<Rightarrow> (fetched, thrown option) TaskResult option list \<Rightarrow> (nat \<rightharpoonup> SnippetFetchResult)
    \<Rightarrow> (nat \<rightharpoonup> SnippetFetchResult)" where
  "snippetMapFrom i [] m = m"
| "snippetMapFrom i (None # rs) m = snippetMapFrom (i + 1) rs m"
| "snippetMapFrom i (Some r # rs) m = snippetMapFrom (i + 1) rs (m(i \<mapsto> toSnippet r))"

text \<open>The two awaited calls of \<^verbatim>\<open>logInfo\<close> outside any \<^verbatim>\<open>try\<close>; a logger tells
  for each whether its promise resolves (\<open>None\<close>) or rejects with an error.\<close>

datatype log_point = Starting | Completed

type_synonym logger = "log_point \<Rightarrow> thrown option"

text \<open>The callback given to the mapper calls \<^verbatim>\<open>logInfo\<close> for batches of more than ten
  requests without awaiting it. \<^verbatim>\<open>logInfo\<close> is an \<^verbatim>\<open>async\<close> function: the call
  returns a promise and does not throw.\<close>

definition fetchProgress :: "nat \<Rightarrow> nat \<Rightarrow> callback_end" where
  "fetchProgress completed n = ReturnsNormally"

text \<open>The options object passed on, with \<^verbatim>\<open>maxConcurrent = 8\<close> as the default of the
  destructuring.\<close>

definition poolOptions :: "SnippetFetchOptions \<Rightarrow> ConcurrencyPoolOptions" where
  "poolOptions options =
     \<lparr>maxConcurrent = Some (case opt_maxConcurrent options of None \<Rightarrow> Num 8 | Some c \<Rightarrow> c),
      onProgress = Some fetchProgress\<rparr>"

text \<open>
  The whole call under a schedule of completions: \<open>None\<close> while the promise is pending
  (or when the schedule names a promise that does not exist), otherwise the way it
  settles. The destructuring \<^verbatim>\<open>signal: _signal\<close> binds the caller's signal to a
  variable that is not read again.
\<close>

definition retryBudget :: "SnippetFetchOptions \<Rightarrow> int" where
  "retryBudget options = (case retryAttempts options of None \<Rightarrow> 1 | Some r \<Rightarrow> r)"

definition timeoutOf :: "SnippetFetchOptions \<Rightarrow> int" where
  "timeoutOf options = (case requestTimeoutMs options of None \<Rightarrow> 1500 | Some t \<Rightarrow> t)"

definition fetchSnippetsInParallel :: "logger \<Rightarrow> service \<Rightarrow> SnippetFetchRequest list \<Rightarrow> SnippetFetchOptions
    \<Rightarrow> nat list \<Rightarrow> (nat \<rightharpoonup> SnippetFetchResult, thrown) settled option" where
  "fetchSnippetsInParallel logger service requests options sched =
     (let timeoutMs = timeoutOf options;
          retry = retryBudget options
      in case logger Starting of
           Some e \<Rightarrow> Some (Rejected e)
         | None \<Rightarrow>
             (case mapWithConcurrency requests (snippetMapper service timeoutMs retry)
                     (poolOptions options) sched of
                None \<Rightarrow> None
              | Some st \<Rightarrow>
                  (case returned st of
                     None \<Rightarrow> None
                   | Some arr \<Rightarrow>
                       (case logger Completed of
                          Some e \<Rightarrow> Some (Rejected e)
                        | None \<Rightarrow> Some (Fulfilled (snippetMapFrom 0 arr Map.empty))))))"

text \<open>The attempts and delays the mapper makes for the request at one position.\<close>

definition fetchEvents :: "service \<Rightarrow> SnippetFetchRequest list \<Rightarrow> SnippetFetchOptions \<Rightarrow> nat \<Rightarrow> fetch_event list" where
  "fetchEvents service requests options pos =
     fst (attemptLoop service (timeoutOf options) (retryBudget options) pos (requests ! pos) 0 None [])"

text \<open>The attempts before attempt \<open>n\<close>, each followed by its delay of
  \<^verbatim>\<open>Math.pow(2, attempt) * 100\<close> milliseconds.\<close>

definition retriesBefore :: "file_slice_call \<Rightarrow> nat \<Rightarrow> fetch_event list" where
  "retriesBefore call n = concat (map (\<lambda>a. [Attempt a call, Backoff (2 ^ a * 100)]) [0..<n])"


section \<open>Serialized size (util/payloadCap.ts)\<close>

text \<open>
  \<^verbatim>\<open>jsonSizeBytes(obj) = Buffer.byteLength(JSON.stringify(obj), "utf8")\<close>. Both library
  functions are written out for the values the search tool serializes: objects with
  ASCII keys, arrays, strings, booleans and numbers. A number is kept as the text that
  \<^verbatim>\<open>JSON.stringify\<close> prints for it. A property whose value is \<^verbatim>\<open>undefined\<close> is not
  printed; such properties are left out when the object is built.
\<close>

datatype json =
    JString jsstring
  | JNumber string
  | JBool bool
  | JArray "json list"
  | JObject "(string \<times> json) list"

definition is_high :: "16 word \<Rightarrow> bool" where
  "is_high u \<longleftrightarrow> 0xD800 \<le> u \<and> u \<le> 0xDBFF"

definition is_low :: "16 word \<Rightarrow> bool" where
  "is_low u \<longleftrightarrow> 0xDC00 \<le> u \<and> u \<le> 0xDFFF"

definition hexDigit :: "nat \<Rightarrow> 16 word" where
  "hexDigit d = of_nat (if d < 10 then 48 + d else 87 + d)"

text \<open>The escape \<^verbatim>\<open>\uXXXX\<close> with lower-case digits.\<close>

definition unicodeEscape :: "16 word \<Rightarrow> jsstring" where
  "unicodeEscape u =
     [0x5C, 0x75, hexDigit (unat u div 4096 mod 16), hexDigit (unat u div 256 mod 16),
      hexDigit (unat u div 16 mod 16), hexDigit (unat u mod 16)]"

text \<open>
  \<^verbatim>\<open>QuoteJSONString\<close> for one code unit that is not part of a surrogate pair: the short
  escapes, \<^verbatim>\<open>\u00XX\<close> for the other control characters, \<^verbatim>\<open>\uDXXX\<close> for a lone
  surrogate, and the unit itself otherwise.
\<close>

definition quoteUnit :: "16 word \<Rightarrow> jsstring" where
  "quoteUnit u =
     (if u = 0x08 then [0x5C, 0x62]
      else if u = 0x09 then [0x5C, 0x74]
      else if u = 0x0A then [0x5C, 0x6E]
      else if u = 0x0C then [0x5C, 0x66]
      else if u = 0x0D then [0x5C, 0x72]
      else if u = 0x22 then [0x5C, 0x22]
      else if u = 0x5C then [0x5C, 0x5C]
      else if u < 0x20 \<or> is_high u \<or> is_low u then unicodeEscape u
      else [u])"

fun quoteUnits :: "jsstring \<Rightarrow> jsstring" where
  "quoteUnits (u # v # vs) =
     (if is_high u \<and> is_low v then u # v # quoteUnits vs
      else quoteUnit u @ quoteUnits (v # vs))"
| "quoteUnits [u] = quoteUnit u"
| "quoteUnits [] = []"

definition quoteJSONString :: "jsstring \<Rightarrow> jsstring" where
  "quoteJSONString s = [0x22] @ quoteUnits s @ [0x22]"

fun commaJoin :: "jsstring list \<Rightarrow> jsstring" where
  "commaJoin [] = []"
| "commaJoin [x] = x"
| "commaJoin (x # y # ys) = x @ [0x2C] @ commaJoin (y # ys)"

fun stringify :: "json \<Rightarrow> jsstring" where
  "stringify (JString s) = quoteJSONString s"
| "stringify (JNumber n) = js n"
| "stringify (JBool b) = (if b then js ''true'' else js ''false'')"
| "stringify (JArray xs) = [0x5B] @ commaJoin (map stringify xs) @ [0x5D]"
| "stringify (JObject kvs) =
     [0x7B] @ commaJoin (map (\<lambda>(k, v). quoteJSONString (js k) @ [0x3A] @ stringify v) kvs) @ [0x7D]"

text \<open>
  \<^verbatim>\<open>Buffer.byteLength(s, "utf8")\<close>: a surrogate pair is one code point of four bytes,
  a lone surrogate is replaced by U+FFFD (three bytes).
\<close>

definition unitBytes :: "16 word \<Rightarrow> nat" where
  "unitBytes u = (if u < 0x80 then 1 else if u < 0x800 then 2 else 3)"

fun byteLength :: "jsstring \<Rightarrow> nat" where
  "byteLength (u # v # vs) =
     (if is_high u \<and> is_low v then 4 + byteLength vs
      else unitBytes u + byteLength (v # vs))"
| "byteLength [u] = unitBytes u"
| "byteLength [] = 0"

text \<open>
  The byte length of a serialization, computed on the value: the bytes of a string
  between its quotes, and the bytes of a value. That this is the length of the text
  \<^verbatim>\<open>JSON.stringify\<close> prints is proved below.
\<close>

definition strBytes :: "jsstring \<Rightarrow> nat" where
  "strBytes s = byteLength (quoteUnits s)"

fun jsonBytes :: "json \<Rightarrow> nat" where
  "jsonBytes (JString s) = 2 + strBytes s"
| "jsonBytes (JNumber n) = byteLength (js n)"
| "jsonBytes (JBool b) = (if b then 4 else 5)"
| "jsonBytes (JArray xs) = 2 + sum_list (map jsonBytes xs) + (length xs - 1)"
| "jsonBytes (JObject kvs) =
     2 + sum_list (map (\<lambda>(k, v). 3 + strBytes (js k) + jsonBytes v) kvs) + (length kvs - 1)"

text \<open>A string after which another can be appended without the two forming a surrogate
  pair across the seam.\<close>

definition closed :: "jsstring \<Rightarrow> bool" where
  "closed s \<longleftrightarrow> s = [] \<or> \<not> is_high (last s)"

text \<open>Code units that \<^verbatim>\<open>JSON.stringify\<close> prints as they are and that take one byte:
  printable ASCII other than the quote and the backslash.\<close>

definition plainUnit :: "16 word \<Rightarrow> bool" where
  "plainUnit u \<longleftrightarrow> 0x20 \<le> u \<and> u < 0x7F \<and> u \<noteq> 0x22 \<and> u \<noteq> 0x5C"


section \<open>Payload trimming (mcp/tools/search_knowledge.ts)\<close>

text \<open>
  The result of the search tool: the content blocks, \<^verbatim>\<open>isError\<close>, and \<^verbatim>\<open>_meta\<close>
  with the compact hit records. \<^verbatim>\<open>_meta.hits\<close> is the array \<^verbatim>\<open>metaHits\<close> itself, so
  popping \<^verbatim>\<open>metaHits\<close> shortens it. Optional fields are \<open>None\<close> when
  \<^verbatim>\<open>undefined\<close>.
\<close>

datatype block =
    TextBlock jsstring
  | ResourceBlock (uri: jsstring) (mimeType: jsstring) (resource_text: jsstring)

record metaHit =
  chunk_id :: jsstring
  hit_repo :: jsstring
  hit_path :: jsstring
  start_line :: string
  end_line :: string
  score :: string

record CallToolResult =
  blocks :: "block list"
  isError :: bool
  hits :: "metaHit list"
  cursor :: "jsstring option"
  estimated_total :: "string option"
  complete :: "bool option"
  upstream_warnings :: "jsstring list option"
  model :: "jsstring option"
  top_k :: "string option"
  mcp_latency_ms :: string

text \<open>The object handed to \<^verbatim>\<open>JSON.stringify\<close>, with the keys in the order in which
  the source writes them.\<close>

definition optional :: "string \<Rightarrow> ('a \<Rightarrow> json) \<Rightarrow> 'a option \<Rightarrow> (string \<times> json) list" where
  "optional k f v = (case v of None \<Rightarrow> [] | Some x \<Rightarrow> [(k, f x)])"

fun blockJson :: "block \<Rightarrow> json" where
  "blockJson (TextBlock t) = JObject [(''type'', JString (js ''text'')), (''text'', JString t)]"
| "blockJson (ResourceBlock u m t) =
     JObject [(''type'', JString (js ''resource'')),
              (''resource'', JObject [(''uri'', JString u), (''mimeType'', JString m), (''text'', JString t)])]"

definition hitJson :: "metaHit \<Rightarrow> json" where
  "hitJson h = JObject [(''chunk_id'', JString (chunk_id h)), (''repo'', JString (hit_repo h)),
     (''path'', JString (hit_path h)), (''start_line'', JNumber (start_line h)),
     (''end_line'', JNumber (end_line h)), (''score'', JNumber (score h))]"

definition metaJson :: "CallToolResult \<Rightarrow> json" where
  "metaJson r = JObject
     ([(''hits'', JArray (map hitJson (hits r)))]
      @ optional ''cursor'' JString (cursor r)
      @ optional ''estimated_total'' JNumber (estimated_total r)
      @ optional ''complete'' JBool (complete r)
      @ optional ''warnings'' (\<lambda>ws. JArray (map JString ws)) (upstream_warnings r)
      @ optional ''model'' JString (model r)
      @ optional ''top_k'' JNumber (top_k r)
      @ [(''mcp_latency_ms'', JNumber (mcp_latency_ms r))])"

definition resultJson :: "CallToolResult \<Rightarrow> json" where
  "resultJson r = JObject [(''content'', JArray (map blockJson (blocks r))),
     (''isError'', JBool (isError r)), (''_meta'', metaJson r)]"

definition jsonSizeBytes :: "CallToolResult \<Rightarrow> nat" where
  "jsonSizeBytes r = byteLength (stringify (resultJson r))"

definition CAP_BYTES :: nat where
  "CAP_BYTES = 70 * 1024"

definition SHRUNK_SNIPPET_CHAR_CAP :: nat where
  "SHRUNK_SNIPPET_CHAR_CAP = 600"

definition MIN_SNIPPET_CHAR_FLOOR :: nat where
  "MIN_SNIPPET_CHAR_FLOOR = 300"

text \<open>
  The variables of the trimming code: the result, which is mutated in place, the variable
  \<^verbatim>\<open>size\<close>, and the warnings written to the log.
\<close>

record trimming =
  res :: CallToolResult
  size_bytes :: nat
  warned :: "(string \<times> string) list"

text \<open>Assignments to the text of the block at a position, followed by
  \<^verbatim>\<open>size = jsonSizeBytes(result)\<close>.\<close>

fun withText :: "jsstring \<Rightarrow> block \<Rightarrow> block" where
  "withText t (TextBlock _) = TextBlock t"
| "withText t (ResourceBlock u m _) = ResourceBlock u m t"

fun blockText :: "block \<Rightarrow> jsstring" where
  "blockText (TextBlock t) = t"
| "blockText (ResourceBlock u m t) = t"

fun isResource :: "block \<Rightarrow> bool" where
  "isResource (TextBlock _) = False"
| "isResource (ResourceBlock _ _ _) = True"

definition setText :: "nat \<Rightarrow> jsstring \<Rightarrow> trimming \<Rightarrow> trimming" where
  "setText i t st =
     (let r = (res st)\<lparr>blocks := (blocks (res st))[i := withText t (blocks (res st) ! i)]\<rparr>
      in st\<lparr>res := r, size_bytes := jsonSizeBytes r\<rparr>)"

text \<open>
  Step 1, the \<^verbatim>\<open>while (prText.length > 0 && size > CAP_BYTES)\<close> loop.
  \<^verbatim>\<open>Math.floor(prText.length * 0.9)\<close> is \<open>9 * length div 10\<close> for every length a string
  can have: the double nearest to 0.9 lies above 0.9 by less than a rounding step.
\<close>

function trimPromptReady :: "nat \<Rightarrow> jsstring \<Rightarrow> trimming \<Rightarrow> trimming" where
  "trimPromptReady cap prText st =
     (if length prText > 0 \<and> size_bytes st > cap
      then let cut = max (9 * length prText div 10) 0;
               prText' = take cut prText
           in trimPromptReady cap prText' (setText 1 prText' st)
      else st)"
  by pat_completeness auto
termination
  by (relation "measure (\<lambda>(cap, prText, st). length prText)")
     (auto simp del: length_greater_0_conv simp add: length_greater_0_conv [symmetric])

definition step1 :: "nat \<Rightarrow> trimming \<Rightarrow> trimming" where
  "step1 cap st =
     (if size_bytes st > cap
      then (if length (blocks (res st)) > 1 \<and> \<not> isResource (blocks (res st) ! 1)
            then trimPromptReady cap (blockText (blocks (res st) ! 1)) st
            else st)
      else st)"

text \<open>Step 2, one pass \<^verbatim>\<open>for (let i = 0; i < content.length && size > CAP_BYTES; i++)\<close>
  from position \<open>i\<close> on, capping resource texts at \<open>chars\<close> code units.\<close>

function capPass :: "nat \<Rightarrow> nat \<Rightarrow> nat \<Rightarrow> trimming \<Rightarrow> trimming" where
  "capPass cap chars i st =
     (if i < length (blocks (res st)) \<and> size_bytes st > cap
      then let block = blocks (res st) ! i
           in if isResource block \<and> length (blockText block) > chars
              then capPass cap chars (i + 1) (setText i (take chars (blockText block)) st)
              else capPass cap chars (i + 1) st
      else st)"
  by pat_completeness auto
termination
  by (relation "measure (\<lambda>(cap, chars, i, st). length (blocks (res st)) - i)")
     (auto simp: setText_def Let_def)

definition step2 :: "nat \<Rightarrow> nat \<Rightarrow> nat \<Rightarrow> trimming \<Rightarrow> trimming" where
  "step2 cap shrunk floorCap st =
     (if size_bytes st > cap
      then capPass cap floorCap 0 (capPass cap shrunk 0 st)
      else st)"

text \<open>Step 3, \<^verbatim>\<open>for (let i = hits.length - 1; i >= 0 && size > CAP_BYTES; i--)\<close>; the
  argument is \<open>i + 1\<close>. A position past the end of the content gives \<^verbatim>\<open>undefined\<close>,
  which is skipped.\<close>

fun emptyPass :: "nat \<Rightarrow> nat \<Rightarrow> trimming \<Rightarrow> trimming" where
  "emptyPass cap 0 st = st"
| "emptyPass cap (Suc i) st =
     (if size_bytes st > cap
      then let blockIdx = i + 2
           in if blockIdx < length (blocks (res st)) \<and> isResource (blocks (res st) ! blockIdx)
              then emptyPass cap i (setText blockIdx [] st)
              else emptyPass cap i st
      else st)"

definition step3 :: "nat \<Rightarrow> nat \<Rightarrow> trimming \<Rightarrow> trimming" where
  "step3 cap hitsLength st = (if size_bytes st > cap then emptyPass cap hitsLength st else st)"

text \<open>Step 4, \<^verbatim>\<open>while (result.content.length > 1 && size > CAP_BYTES)\<close> with
  \<^verbatim>\<open>result.content.pop(); metaHits.pop()\<close>; \<^verbatim>\<open>pop\<close> on an empty array does nothing.\<close>

function dropLoop :: "nat \<Rightarrow> trimming \<Rightarrow> trimming" where
  "dropLoop cap st =
     (if length (blocks (res st)) > 1 \<and> size_bytes st > cap
      then let r = (res st)\<lparr>blocks := butlast (blocks (res st)), hits := butlast (hits (res st))\<rparr>
           in dropLoop cap (st\<lparr>res := r, size_bytes := jsonSizeBytes r\<rparr>)
      else st)"
  by pat_completeness auto
termination
  by (relation "measure (\<lambda>(cap, st). length (blocks (res st)))") auto

definition step4 :: "nat \<Rightarrow> trimming \<Rightarrow> trimming" where
  "step4 cap st =
     (if size_bytes st > cap
      then let st' = dropLoop cap st
           in st'\<lparr>res := (res st')\<lparr>complete := Some False\<rparr>,
                  warned := warned st' @ [(''search'', ''trimmed content to respect 50KB cap'')]\<rparr>
      else st)"

text \<open>The trimming code of the handler, from \<^verbatim>\<open>let size = jsonSizeBytes(result)\<close> to
  the end of step 4, for a budget and two character caps; \<open>hitsLength\<close> is
  \<^verbatim>\<open>transformedRes.hits.length\<close>.\<close>

definition trimWith :: "nat \<Rightarrow> nat \<Rightarrow> nat \<Rightarrow> nat \<Rightarrow> CallToolResult \<Rightarrow> trimming" where
  "trimWith cap shrunk floorCap hitsLength r =
     step4 cap (step3 cap hitsLength (step2 cap shrunk floorCap (step1 cap
       \<lparr>res = r, size_bytes = jsonSizeBytes r, warned = []\<rparr>)))"

definition trimPayload :: "nat \<Rightarrow> CallToolResult \<Rightarrow> trimming" where
  "trimPayload hitsLength r =
     trimWith CAP_BYTES SHRUNK_SNIPPET_CHAR_CAP MIN_SNIPPET_CHAR_FLOOR hitsLength r"


text \<open>
  Notions used to state what the steps do. The variable \<^verbatim>\<open>size\<close> is consistent when
  it holds the size of the result as it is. One cut of step 1 keeps 90% of a text. A
  result with another prompt-ready text, with the resource texts in a range of positions
  capped, and with the resource texts in a range of positions emptied. The shape of a
  block is the block without its text.
\<close>

definition consistent :: "trimming \<Rightarrow> bool" where
  "consistent st \<longleftrightarrow> size_bytes st = jsonSizeBytes (res st)"

definition startTrimming :: "CallToolResult \<Rightarrow> trimming" where
  "startTrimming r = \<lparr>res = r, size_bytes = jsonSizeBytes r, warned = []\<rparr>"

definition cut90 :: "jsstring \<Rightarrow> jsstring" where
  "cut90 t = take (9 * length t div 10) t"

definition promptWith :: "CallToolResult \<Rightarrow> jsstring \<Rightarrow> CallToolResult" where
  "promptWith r t = r\<lparr>blocks := (blocks r)[1 := withText t (blocks r ! 1)]\<rparr>"

definition capBlock :: "nat \<Rightarrow> block \<Rightarrow> block" where
  "capBlock chars b =
     (if isResource b \<and> length (blockText b) > chars then withText (take chars (blockText b)) b else b)"

definition emptyBlock :: "block \<Rightarrow> block" where
  "emptyBlock b = (if isResource b then withText [] b else b)"

definition inRange :: "(block \<Rightarrow> block) \<Rightarrow> nat \<Rightarrow> nat \<Rightarrow> block list \<Rightarrow> block list" where
  "inRange f i j bs = map (\<lambda>k. if i \<le> k \<and> k < j then f (bs ! k) else bs ! k) [0..<length bs]"

definition dropped :: "nat \<Rightarrow> CallToolResult \<Rightarrow> CallToolResult" where
  "dropped k r = r\<lparr>blocks := take (length (blocks r) - k) (blocks r),
                    hits := take (length (hits r) - k) (hits r)\<rparr>"

definition shape :: "block \<Rightarrow> block" where
  "shape b = withText [] b"

definition trimWarning :: "string \<times> string" where
  "trimWarning = (''search'', ''trimmed content to respect 50KB cap'')"

text \<open>A result that differs from another at most in the texts of its blocks, a first
  block that is a text block being left as it is.\<close>

definition retexted :: "CallToolResult \<Rightarrow> CallToolResult \<Rightarrow> bool" where
  "retexted r r' \<longleftrightarrow>
     (\<exists>bs. r' = r\<lparr>blocks := bs\<rparr> \<and> map shape bs = map shape (blocks r) \<and>
           (isResource (blocks r ! 0) \<or> bs ! 0 = blocks r ! 0))"


section \<open>Concrete inputs\<close>

text \<open>Inputs at which the definitions are evaluated in the examples below.\<close>

definition throwsForFirst :: "(nat, nat, string) mapper" where
  "throwsForFirst x i = (if i = 0 then Throws ''boom'' else Returns (Fulfilled (i + 7)))"

definition rejectsForFirst :: "(nat, nat, string) mapper" where
  "rejectsForFirst x i = (if i = 0 then Returns (Rejected ''boom'') else Returns (Fulfilled (i + 7)))"

definition rejectsForSecond :: "(nat, nat, string) mapper" where
  "rejectsForSecond x i = Returns (if i = 1 then Rejected ''boom'' else Fulfilled (i + 7))"

definition throwsForSecond :: "(nat, nat, string) mapper" where
  "throwsForSecond x i = (if i = 1 then Throws ''boom'' else Returns (Fulfilled i))"

definition silentProgress :: "nat \<Rightarrow> nat \<Rightarrow> callback_end" where
  "silentProgress completed n = ReturnsNormally"

text \<open>The number of mapper promises outstanding after a run.\<close>

definition outstanding :: "('a, 'r, 'e) pool option \<Rightarrow> nat option" where
  "outstanding run = map_option (\<lambda>st. length (awaiting st)) run"

definition throwingProgress :: "nat \<Rightarrow> nat \<Rightarrow> callback_end" where
  "throwingProgress completed n = ThrowsError"

definition observed :: "('a, 'r, 'e) pool option
    \<Rightarrow> (('r, 'e) TaskResult option list option \<times> ('a option \<times> nat) list \<times> (nat \<times> nat) list) option" where
  "observed run = map_option (\<lambda>st. (returned st, mapperCalls st, progressCalls st)) run"

definition requestA :: SnippetFetchRequest where
  "requestA = \<lparr>repo = js '' repoa '', path = js ''src/a.ts'', startLine = 3, endLine = 10,
     contextLinesBefore = Some 5, contextLinesAfter = None\<rparr>"

definition callA :: file_slice_call where
  "callA = \<lparr>call_repo = js ''repoa'', call_path = js ''src/a.ts'', call_start = 1, call_end = 10,
     call_timeout = 1500\<rparr>"

definition sliceA :: FileSliceResponse where
  "sliceA = \<lparr>content = js ''ok'', meta_warnings = None\<rparr>"

definition snippetA :: SnippetFetchResult where
  "snippetA = \<lparr>snippet_content = js ''ok'', warnings = None, actualStartLine = Some 1,
     actualEndLine = Some 10, chunkStartLine = Some 3, chunkEndLine = Some 10\<rparr>"

text \<open>A service whose first attempt runs into the timer, one whose first attempt fails
  with an error of the REST client, and one whose first two attempts fail so.\<close>

definition timesOutOnce :: service where
  "timesOutOnce pos n call = (if n = 0 then TimesOut else Responds sliceA)"

definition failsOnce :: service where
  "failsOnce pos n call = (if n = 0 then Fails (NotAnError (js ''[object Object]'')) else Responds sliceA)"

definition failsTwice :: service where
  "failsTwice pos n call = (if n < 2 then Fails (NotAnError (js ''[object Object]'')) else Responds sliceA)"

definition retrying :: "int \<Rightarrow> SnippetFetchOptions" where
  "retrying r = \<lparr>opt_maxConcurrent = None, requestTimeoutMs = None, retryAttempts = Some r, signal = None\<rparr>"

definition unlimited :: "number \<Rightarrow> SnippetFetchOptions" where
  "unlimited c = \<lparr>opt_maxConcurrent = Some c, requestTimeoutMs = None, retryAttempts = None, signal = None\<rparr>"

definition retryingAborted :: "int \<Rightarrow> SnippetFetchOptions" where
  "retryingAborted r = \<lparr>opt_maxConcurrent = None, requestTimeoutMs = None, retryAttempts = Some r,
     signal = Some (AbortSignal True)\<rparr>"

text \<open>A logger whose calls succeed, and one that cannot write its file.\<close>

definition quietLogger :: logger where
  "quietLogger p = None"

definition brokenLogger :: logger where
  "brokenLogger p = Some (ErrorObject (js ''Error'') (js ''ENOENT: no such file or directory''))"

text \<open>The entry of the mapping at a position once the call has resolved.\<close>

definition snippetAt :: "nat \<Rightarrow> (nat \<rightharpoonup> SnippetFetchResult, thrown) settled option
    \<Rightarrow> SnippetFetchResult option option" where
  "snippetAt i run = (case run of Some (Fulfilled m) \<Rightarrow> Some (m i) | _ \<Rightarrow> None)"


text \<open>A small result with two hits.\<close>

definition tinyResult :: CallToolResult where
  "tinyResult = \<lparr>blocks =
       [TextBlock (js ''Found 2 results across 1 repo.''),
        TextBlock (js ''[r] a.ts#L1-L2 const a = 1; [r] b.ts#L3-L4 export {}''),
        ResourceBlock (js ''kb://r/a.ts#L1-L2'') (js ''text/typescript'') (js ''const a = 1; const b = 2;''),
        ResourceBlock (js ''kb://r/b.ts#L3-L4'') (js ''text/typescript'') (js ''export {}'')],
     isError = False,
     hits =
       [\<lparr>chunk_id = js ''c1'', hit_repo = js ''r'', hit_path = js ''a.ts'', start_line = ''1'',
          end_line = ''2'', score = ''0.9''\<rparr>,
        \<lparr>chunk_id = js ''c2'', hit_repo = js ''r'', hit_path = js ''b.ts'', start_line = ''3'',
          end_line = ''4'', score = ''0.8''\<rparr>],
     cursor = None, estimated_total = None, complete = Some True, upstream_warnings = None,
     model = Some (js ''large''), top_k = Some ''5'', mcp_latency_ms = ''12''\<rparr>"


text \<open>
  A result over the budget of 70 KB that no retexting brings under it: the small result
  with an upstream cursor of 71295 letters. What is left of it after the trimming code
  has run once, and after it has run a second time.
\<close>

definition padding :: "nat \<Rightarrow> jsstring" where
  "padding n = replicate n 0x61"

definition overBudget :: CallToolResult where
  "overBudget = tinyResult\<lparr>cursor := Some (padding 71295)\<rparr>"

definition trimmedOnce :: CallToolResult where
  "trimmedOnce = overBudget\<lparr>blocks :=
       [TextBlock (js ''Found 2 results across 1 repo.''),
        TextBlock [],
        ResourceBlock (js ''kb://r/a.ts#L1-L2'') (js ''text/typescript'') []],
     hits :=
       [\<lparr>chunk_id = js ''c1'', hit_repo = js ''r'', hit_path = js ''a.ts'', start_line = ''1'',
          end_line = ''2'', score = ''0.9''\<rparr>],
     complete := Some False\<rparr>"

definition trimmedTwice :: CallToolResult where
  "trimmedTwice = overBudget\<lparr>blocks :=
       [TextBlock (js ''Found 2 results across 1 repo.''), TextBlock []],
     hits := [], complete := Some False\<rparr>"

text \<open>A result without hits, over the budget by its cursor.\<close>

definition noHits :: CallToolResult where
  "noHits = \<lparr>blocks = [TextBlock (js ''Found 0 results.'')], isError = False, hits = [],
     cursor = Some (padding 71600), estimated_total = None, complete = Some True,
     upstream_warnings = None, model = Some (js ''large''), top_k = Some ''5'',
     mcp_latency_ms = ''12''\<rparr>"

text \<open>A result whose summary and metadata alone are over the budget.\<close>

definition farOver :: CallToolResult where
  "farOver = tinyResult\<lparr>cursor := Some (padding 72000)\<rparr>"

section \<open>Properties of the bounded-concurrency mapper\<close>

declare runTask.simps [simp del] afterAwait.simps [simp del] startBatch.simps [simp del]

lemma jsLess_mono: "jsLess (Num b) m \<Longrightarrow> a \<le> b \<Longrightarrow> jsLess (Num a) m"
  by (cases m) auto

lemma jsLess_mathMin:
  "jsLess (Num a) (mathMin m (Num b)) \<longleftrightarrow> jsLess (Num a) m \<and> a < b"
  by (cases m) (auto simp: mathMin_def)

lemma admits_mono: "admits maxC a \<Longrightarrow> b \<le> a \<Longrightarrow> admits maxC b"
  unfolding admits_def
  by (metis diff_right_mono jsLess_mono of_int_le_iff order_trans)

lemma admits_next: "jsLess (Num (of_int a)) maxC \<Longrightarrow> admits maxC (a + 1)"
  by (simp add: admits_def)

lemma admits_pred: "admits maxC a \<Longrightarrow> 0 < a \<Longrightarrow> jsLess (Num (of_int (a - 1))) maxC"
  by (simp add: admits_def)

lemma admits_max: "admits maxC a \<Longrightarrow> admits maxC b \<Longrightarrow> admits maxC (max a b)"
  by (simp add: max_def)

lemma admits_0 [simp]: "admits maxC 0"
  by (simp add: admits_def)

lemma finishTask_fields [simp]:
  "activeCount (snd (finishTask options n i outcome st)) = activeCount st - 1"
  "currentIndex (snd (finishTask options n i outcome st)) = currentIndex st"
  "awaiting (snd (finishTask options n i outcome st)) = awaiting st"
  "peakActive (snd (finishTask options n i outcome st)) = peakActive st"
  "mapperCalls (snd (finishTask options n i outcome st)) = mapperCalls st"
  "results (snd (finishTask options n i outcome st)) = array_set (results st) i (taskResult i outcome)"
  by (simp_all add: finishTask_def updateProgress_def checkComplete_def Let_def
      split: callback_end.splits option.splits)

lemma finishTask_quiet:
  "quiet options \<Longrightarrow> fst (finishTask options n i outcome st) = ReturnsNormally"
  by (simp add: finishTask_def updateProgress_def quiet_def Let_def
      split: callback_end.splits option.splits)

lemma runTask_afterAwait_balanced:
  "(activeCount st = int (length (awaiting st)) \<longrightarrow> jsLess (Num (of_int (activeCount st))) maxC \<longrightarrow>
      admits maxC (peakActive st) \<longrightarrow>
      balanced maxC (runTask items mapper options maxC i st) \<and>
      activeCount (runTask items mapper options maxC i st) \<le> activeCount st + 1)"
  "(activeCount st' = int (length (awaiting st')) + 1 \<longrightarrow> admits maxC (activeCount st') \<longrightarrow>
      admits maxC (peakActive st') \<longrightarrow>
      balanced maxC (afterAwait items mapper options maxC i' outcome st') \<and>
      activeCount (afterAwait items mapper options maxC i' outcome st') \<le> activeCount st')"
proof (induction items mapper options maxC i st and items mapper options maxC i' outcome st'
    rule: runTask_afterAwait.induct)
  case (1 items mapper options maxC i st)
  show ?case
  proof (intro impI)
    assume a: "activeCount st = int (length (awaiting st))" "jsLess (Num (of_int (activeCount st))) maxC"
      "admits maxC (peakActive st)"
    have w: "admits maxC (activeCount st + 1)" using a(2) by (rule admits_next)
    have p: "admits maxC (max (peakActive st) (activeCount st + 1))"
      using a(3) w by (rule admits_max)
    show "balanced maxC (runTask items mapper options maxC i st) \<and>
      activeCount (runTask items mapper options maxC i st) \<le> activeCount st + 1"
    proof (cases "mapper (item_at items i) i")
      case (Throws e)
      with 1 a w p show ?thesis
        by (simp add: runTask.simps [of items mapper options maxC i st] hasError_def Let_def)
    next
      case (Returns r)
      with a w p show ?thesis
        by (simp add: runTask.simps [of items mapper options maxC i st] hasError_def Let_def balanced_def)
    qed
  qed
next
  case (2 items mapper options maxC i outcome st)
  let ?r = "finishTask options (length items) i outcome st"
  let ?st4 = "snd ?r"
  show ?case
  proof (intro impI)
    assume a: "activeCount st = int (length (awaiting st)) + 1" "admits maxC (activeCount st)"
      "admits maxC (peakActive st)"
    have w4: "admits maxC (activeCount ?st4)"
      using admits_mono [OF a(2), of "activeCount st - 1"] by simp
    show "balanced maxC (afterAwait items mapper options maxC i outcome st) \<and>
      activeCount (afterAwait items mapper options maxC i outcome st) \<le> activeCount st"
    proof (cases "fst ?r = ReturnsNormally \<and> currentIndex ?st4 < length items \<and>
                  jsLess (Num (of_int (activeCount ?st4))) maxC \<and> \<not> hasError")
      case True
      let ?st5 = "?st4\<lparr>currentIndex := currentIndex ?st4 + 1\<rparr>"
      have "balanced maxC (runTask items mapper options maxC (currentIndex ?st4) ?st5) \<and>
            activeCount (runTask items mapper options maxC (currentIndex ?st4) ?st5) \<le> activeCount ?st5 + 1"
        using "2.IH" [OF refl refl True] a True by simp
      then show ?thesis
        using True by (simp add: afterAwait.simps [of items mapper options maxC i outcome st] Let_def)
    next
      case False
      then have "afterAwait items mapper options maxC i outcome st = ?st4"
        unfolding afterAwait.simps [of items mapper options maxC i outcome st] Let_def
        by (simp only: if_False)
      then show ?thesis using a w4 by (simp add: balanced_def)
    qed
  qed
qed

lemma startBatch_balanced:
  "balanced maxC st \<Longrightarrow> activeCount st \<le> int i \<Longrightarrow>
   balanced maxC (startBatch items mapper options maxC i st)"
proof (induction items mapper options maxC i st rule: startBatch.induct)
  case (1 items mapper options maxC i st)
  show ?case
  proof (cases "jsLess (Num (of_nat i)) (mathMin maxC (Num (of_nat (length items))))")
    case True
    let ?st = "st\<lparr>currentIndex := currentIndex st + 1\<rparr>"
    let ?st1 = "runTask items mapper options maxC (currentIndex st) ?st"
    from True have "jsLess (Num (of_nat i)) maxC" by (simp add: jsLess_mathMin)
    moreover have "rat_of_int (activeCount st) \<le> rat_of_nat i"
      using "1.prems"(2) by (metis of_int_le_iff of_int_of_nat_eq)
    ultimately have "jsLess (Num (of_int (activeCount st))) maxC"
      by (rule jsLess_mono)
    moreover have "activeCount st = int (length (awaiting st))" "admits maxC (peakActive st)"
      using "1.prems"(1) unfolding balanced_def by blast+
    ultimately have "balanced maxC ?st1 \<and> activeCount ?st1 \<le> activeCount ?st + 1"
      by (intro runTask_afterAwait_balanced(1) [rule_format]) simp_all
    then have "balanced maxC (startBatch items mapper options maxC (i + 1) ?st1)"
      using "1.IH" [OF True] "1.prems"(2) by simp
    then show ?thesis
      using True by (simp add: startBatch.simps [of items mapper options maxC i st])
  next
    case False
    then show ?thesis
      using "1.prems"(1) by (simp add: startBatch.simps [of items mapper options maxC i st])
  qed
qed

lemma startPool_balanced: "balanced (effectiveMax options) (startPool items mapper options)"
  by (auto simp: startPool_def Let_def balanced_def emptyPool_def
      intro!: startBatch_balanced [unfolded balanced_def])

lemma settle_balanced:
  assumes "balanced maxC st" "settle items mapper options maxC k st = Some st'"
  shows "balanced maxC st'"
proof -
  from assms(2) have k: "k < length (awaiting st)"
    and st': "st' = afterAwait items mapper options maxC (fst (awaiting st ! k)) (snd (awaiting st ! k))
                   (st\<lparr>awaiting := take k (awaiting st) @ drop (Suc k) (awaiting st)\<rparr>)"
    by (auto simp: settle_def split: if_splits)
  let ?st = "st\<lparr>awaiting := take k (awaiting st) @ drop (Suc k) (awaiting st)\<rparr>"
  have "length (awaiting ?st) + 1 = length (awaiting st)"
    using k by simp
  then have "activeCount ?st = int (length (awaiting ?st)) + 1"
    using assms(1) by (simp add: balanced_def)
  moreover have "admits maxC (activeCount ?st)" "admits maxC (peakActive ?st)"
    using assms(1) unfolding balanced_def by auto
  ultimately show ?thesis
    unfolding st'
    using runTask_afterAwait_balanced(2) [of ?st maxC items mapper options]
    by blast
qed

lemma runSchedule_balanced:
  "balanced maxC st \<Longrightarrow> runSchedule items mapper options maxC sched st = Some st' \<Longrightarrow> balanced maxC st'"
  by (induction sched arbitrary: st) (auto split: option.splits dest: settle_balanced)

lemma runTask_async:
  assumes "is_async mapper"
  shows "runTask items mapper options maxC i st =
     st\<lparr>activeCount := activeCount st + 1,
        mapperCalls := mapperCalls st @ [(item_at items i, i)],
        peakActive := max (peakActive st) (activeCount st + 1),
        awaiting := awaiting st @ [(i, outcomeOf mapper items i)]\<rparr>"
proof -
  from assms obtain p where "mapper (item_at items i) i = Returns p"
    unfolding is_async_def by blast
  then show ?thesis
    by (simp add: runTask.simps [of items mapper options maxC i st] hasError_def outcomeOf_def)
qed

lemma pool_inv_launch:
  assumes async: "is_async mapper"
    and inv: "pool_inv items mapper maxC st"
    and c: "currentIndex st < length items"
    and a: "jsLess (Num (of_int (activeCount st))) maxC"
  shows "pool_inv items mapper maxC
           (runTask items mapper options maxC (currentIndex st) (st\<lparr>currentIndex := currentIndex st + 1\<rparr>))"
proof -
  let ?c = "currentIndex st"
  have sub: "\<forall>x \<in> set (awaiting st). fst x < ?c"
    using inv by (simp add: pool_inv_def)
  then have notin: "?c \<notin> fst ` set (awaiting st)" by auto
  have res: "map (\<lambda>i. if i < ?c \<and> i \<notin> fst ` set (awaiting st)
                      then Some (expected mapper items i) else None) [0..<length items]
           = map (\<lambda>i. if i < Suc ?c \<and> i \<notin> insert ?c (fst ` set (awaiting st))
                      then Some (expected mapper items i) else None) [0..<length items]"
    by (rule map_cong) auto
  have w: "admits maxC (activeCount st + 1)" using a by (rule admits_next)
  show ?thesis
    unfolding runTask_async [OF async]
    using inv c w notin res sub
    by (auto simp: pool_inv_def less_Suc_eq)
qed


lemma finishTask_more [simp]:
  "progressCalls (snd (finishTask options n i outcome st)) =
     progressCalls st @ [(length (filter (\<lambda>r. r \<noteq> None) (array_set (results st) i (taskResult i outcome))), n)]"
  "quiet options \<Longrightarrow> resolved (snd (finishTask options n i outcome st)) \<longleftrightarrow>
     resolved st \<or> (n \<le> currentIndex st \<and> activeCount st - 1 = 0)"
  by (auto simp: finishTask_def updateProgress_def checkComplete_def Let_def hasError_def quiet_def
      split: callback_end.splits option.splits)

lemma fst_set_remove_nth:
  assumes "distinct (map fst A)" "k < length A"
  shows "fst ` set (take k A @ drop (Suc k) A) = fst ` set A - {fst (A ! k)}"
proof -
  have A: "A = take k A @ A ! k # drop (Suc k) A"
    using assms(2) by (rule id_take_nth_drop)
  have "distinct (map fst (take k A @ A ! k # drop (Suc k) A))"
    using assms(1) A by simp
  then have "fst (A ! k) \<notin> fst ` set (take k A)" "fst (A ! k) \<notin> fst ` set (drop (Suc k) A)"
    by auto
  moreover have "fst ` set A = fst ` set (take k A) \<union> {fst (A ! k)} \<union> fst ` set (drop (Suc k) A)"
    by (subst A) (simp add: image_Un)
  ultimately show ?thesis by (auto simp: image_Un)
qed

lemma pool_inv_finish:
  assumes q: "quiet options"
    and inv: "pool_inv items mapper maxC st" and k: "k < length (awaiting st)"
  shows "pool_inv items mapper maxC
           (snd (finishTask options (length items) (fst (awaiting st ! k)) (snd (awaiting st ! k))
              (st\<lparr>awaiting := take k (awaiting st) @ drop (Suc k) (awaiting st)\<rparr>)))"
proof -
  let ?A = "awaiting st" and ?c = "currentIndex st" and ?n = "length items"
  let ?i = "fst (?A ! k)" and ?p = "snd (?A ! k)"
  let ?rest = "take k ?A @ drop (Suc k) ?A"
  have mem: "?A ! k \<in> set ?A" using k by simp
  have dist: "distinct (map fst ?A)" using inv by (simp add: pool_inv_def)
  have i: "?i < ?c" and p: "?p = outcomeOf mapper items ?i"
    using inv mem by (auto simp: pool_inv_def)
  have cn: "?c \<le> ?n" using inv by (simp add: pool_inv_def)
  have fsts: "fst ` set ?rest = fst ` set ?A - {?i}"
    using dist k by (rule fst_set_remove_nth)
  have A: "?A = take k ?A @ ?A ! k # drop (Suc k) ?A"
    using k by (rule id_take_nth_drop)
  have dist': "distinct (map fst ?rest)"
  proof -
    have "distinct (map fst (take k ?A @ ?A ! k # drop (Suc k) ?A))"
      using dist A by simp
    then show ?thesis by auto
  qed
  have sub: "set ?rest \<subseteq> set ?A"
    by (auto dest: in_set_takeD in_set_dropD)
  have len: "length ?rest + 1 = length ?A" using k by simp
  have notres: "\<not> resolved st" using inv k by (auto simp: pool_inv_def)
  have res: "array_set (results st) ?i (taskResult ?i ?p)
           = map (\<lambda>j. if j < ?c \<and> j \<notin> fst ` set ?rest
                      then Some (expected mapper items j) else None) [0..<?n]"
  proof -
    have r: "results st = map (\<lambda>j. if j < ?c \<and> j \<notin> fst ` set ?A
                            then Some (expected mapper items j) else None) [0..<?n]"
      using inv by (simp add: pool_inv_def)
    have "?i < length (results st)" using r i cn by simp
    then have "array_set (results st) ?i (taskResult ?i ?p) = (results st)[?i := Some (expected mapper items ?i)]"
      by (simp add: array_set_def expected_def p)
    also have "\<dots> = map (\<lambda>j. if j < ?c \<and> j \<notin> fst ` set ?rest
                      then Some (expected mapper items j) else None) [0..<?n]"
      unfolding fsts
      by (subst r, rule nth_equalityI) (use i cn in \<open>auto simp: nth_list_update\<close>)
    finally show ?thesis .
  qed
  have "admits maxC (activeCount st)"
    using inv unfolding pool_inv_def by blast
  then have w: "admits maxC (activeCount st - 1)"
    by (rule admits_mono) simp
  show ?thesis
    unfolding pool_inv_def
    using inv cn dist' sub res len notres w q
    by (auto simp: pool_inv_def)
qed


lemma pool_inv_settle:
  assumes async: "is_async mapper"
    and q: "quiet options"
    and inv: "pool_inv items mapper maxC st"
    and step: "settle items mapper options maxC k st = Some st'"
  shows "pool_inv items mapper maxC st' \<and>
         length (progressCalls st') = Suc (length (progressCalls st)) \<and>
         (awaiting st' = [] \<longrightarrow> currentIndex st' = length items)"
proof -
  let ?r = "finishTask options (length items) (fst (awaiting st ! k)) (snd (awaiting st ! k))
              (st\<lparr>awaiting := take k (awaiting st) @ drop (Suc k) (awaiting st)\<rparr>)"
  let ?st4 = "snd ?r"
  from step have k: "k < length (awaiting st)"
    and st': "st' = afterAwait items mapper options maxC (fst (awaiting st ! k)) (snd (awaiting st ! k))
                   (st\<lparr>awaiting := take k (awaiting st) @ drop (Suc k) (awaiting st)\<rparr>)"
    by (auto simp: settle_def split: if_splits)
  have inv4: "pool_inv items mapper maxC ?st4"
    using q inv k by (rule pool_inv_finish)
  have r4: "fst ?r = ReturnsNormally"
    using q by (rule finishTask_quiet)
  have "0 < activeCount st" "admits maxC (activeCount st)"
    using inv k unfolding pool_inv_def by auto
  then have a4: "jsLess (Num (of_int (activeCount ?st4))) maxC"
    using admits_pred [of maxC "activeCount st"] by simp
  have c4: "currentIndex ?st4 \<le> length items"
    using inv by (simp add: pool_inv_def)
  show ?thesis
  proof (cases "currentIndex ?st4 < length items")
    case True
    let ?st5 = "runTask items mapper options maxC (currentIndex ?st4) (?st4\<lparr>currentIndex := currentIndex ?st4 + 1\<rparr>)"
    have eq: "st' = ?st5"
      unfolding st' afterAwait.simps [of items mapper options maxC _ _ "st\<lparr>awaiting := take k (awaiting st) @ drop (Suc k) (awaiting st)\<rparr>"] Let_def
      using True a4 r4 by (simp only: hasError_def simp_thms if_True)
    have "pool_inv items mapper maxC ?st5"
      using async inv4 True a4 by (rule pool_inv_launch)
    moreover have "length (progressCalls ?st5) = Suc (length (progressCalls st))"
      by (simp add: runTask_async [OF async])
    moreover have "awaiting ?st5 \<noteq> []"
      by (simp add: runTask_async [OF async])
    ultimately show ?thesis unfolding eq by blast
  next
    case False
    have eq: "st' = ?st4"
      unfolding st' afterAwait.simps [of items mapper options maxC _ _ "st\<lparr>awaiting := take k (awaiting st) @ drop (Suc k) (awaiting st)\<rparr>"] Let_def
      using False by (simp only: simp_thms if_False)
    have "currentIndex ?st4 = length items" using False c4 by simp
    moreover have "length (progressCalls ?st4) = Suc (length (progressCalls st))" by simp
    ultimately show ?thesis unfolding eq using inv4 by blast
  qed
qed

lemma startBatch_inv:
  "is_async mapper \<Longrightarrow> pool_inv items mapper maxC st \<Longrightarrow> currentIndex st = i \<Longrightarrow> activeCount st = int i \<Longrightarrow>
         pool_inv items mapper maxC (startBatch items mapper options maxC i st) \<and>
         progressCalls (startBatch items mapper options maxC i st) = progressCalls st \<and>
         i \<le> currentIndex (startBatch items mapper options maxC i st) \<and>
         (jsLess (Num (of_nat i)) (mathMin maxC (Num (of_nat (length items)))) \<longrightarrow>
            i < currentIndex (startBatch items mapper options maxC i st))"
proof (induction items mapper options maxC i st rule: startBatch.induct)
  case (1 items mapper options maxC i st)
  note async = "1.prems"(1)
  show ?case
  proof (cases "jsLess (Num (of_nat i)) (mathMin maxC (Num (of_nat (length items))))")
    case True
    let ?st1 = "runTask items mapper options maxC (currentIndex st) (st\<lparr>currentIndex := currentIndex st + 1\<rparr>)"
    from True have t: "jsLess (Num (of_nat i)) maxC" "i < length items"
      by (simp_all add: jsLess_mathMin)
    have "jsLess (Num (of_int (activeCount st))) maxC"
      using t(1) "1.prems"(4) by simp
    then have "pool_inv items mapper maxC ?st1"
      using "1.prems" t(2) by (intro pool_inv_launch) auto
    moreover have "currentIndex ?st1 = i + 1" "activeCount ?st1 = int (i + 1)"
      "progressCalls ?st1 = progressCalls st"
      using "1.prems" by (simp_all add: runTask_async [OF async])
    ultimately have "pool_inv items mapper maxC (startBatch items mapper options maxC (i + 1) ?st1) \<and>
         progressCalls (startBatch items mapper options maxC (i + 1) ?st1) = progressCalls st \<and>
         i + 1 \<le> currentIndex (startBatch items mapper options maxC (i + 1) ?st1)"
      using "1.IH" [OF True async] by simp
    then show ?thesis
      using True by (simp add: startBatch.simps [of items mapper options maxC i st])
  next
    case False
    then show ?thesis
      using "1.prems" by (simp add: startBatch.simps [of items mapper options maxC i st])
  qed
qed

lemma pool_inv_empty: "pool_inv items mapper maxC (emptyPool (length items)) \<longleftrightarrow> items \<noteq> []"
  by (auto simp: pool_inv_def emptyPool_def intro!: nth_equalityI)

lemma pool_inv_count:
  "pool_inv items mapper maxC st \<Longrightarrow> length (progressCalls st) + length (awaiting st) = currentIndex st"
  by (simp add: pool_inv_def)

lemma effectiveMax_first:
  "maxConcurrent options \<noteq> Some NaN \<Longrightarrow> 0 < n \<Longrightarrow>
   jsLess (Num (of_nat 0)) (mathMin (effectiveMax options) (Num (of_nat n)))"
proof (cases "maxConcurrent options")
  case None
  assume "0 < n"
  with None show ?thesis by (simp add: effectiveMax_def mathMax_def mathMin_def)
next
  case (Some c)
  assume "maxConcurrent options \<noteq> Some NaN" "0 < n"
  with Some show ?thesis
    by (cases c) (auto simp: effectiveMax_def mathMax_def mathMin_def)
qed

lemma startPool_inv:
  fixes mapper :: "('a, 'r, 'e) mapper"
  assumes async: "is_async mapper"
    and nan: "maxConcurrent options \<noteq> Some NaN"
  shows "pool_inv items mapper (effectiveMax options) (startPool items mapper options) \<and>
         progressCalls (startPool items mapper options) = [] \<and>
         (awaiting (startPool items mapper options) = [] \<longrightarrow>
            currentIndex (startPool items mapper options) = length items)"
proof (cases "items = []")
  case True
  then show ?thesis
    by (simp add: startPool_def pool_inv_def emptyPool_def)
next
  case False
  let ?m = "effectiveMax options"
  let ?e = "emptyPool (length items) :: ('a, 'r, 'e) pool"
  have sp: "startPool items mapper options = startBatch items mapper options ?m 0 ?e"
    using False by (simp add: startPool_def Let_def)
  have e: "pool_inv items mapper ?m ?e"
    using False by (simp add: pool_inv_empty)
  have e0: "progressCalls ?e = []" "currentIndex ?e = 0" "activeCount ?e = int 0"
    by (simp_all add: emptyPool_def)
  have first: "jsLess (Num (of_nat 0)) (mathMin ?m (Num (of_nat (length items))))"
    using nan False by (intro effectiveMax_first) auto
  let ?s = "startBatch items mapper options ?m 0 ?e"
  have *: "pool_inv items mapper ?m ?s \<and> progressCalls ?s = progressCalls ?e \<and>
         0 \<le> currentIndex ?s \<and>
         (jsLess (Num (of_nat 0)) (mathMin ?m (Num (of_nat (length items)))) \<longrightarrow> 0 < currentIndex ?s)"
    by (rule startBatch_inv [OF async e e0(2) e0(3)])
  then have "length (progressCalls ?s) + length (awaiting ?s) = currentIndex ?s"
    by (blast dest: pool_inv_count)
  moreover have "0 < currentIndex ?s" using * first by blast
  ultimately have "awaiting ?s \<noteq> []"
    using * e0 by auto
  with * e0 show ?thesis unfolding sp by simp
qed

lemma runSchedule_inv:
  assumes async: "is_async mapper" and q: "quiet options"
  shows "pool_inv items mapper maxC st \<Longrightarrow> (awaiting st = [] \<longrightarrow> currentIndex st = length items) \<Longrightarrow>
         runSchedule items mapper options maxC sched st = Some st' \<Longrightarrow>
         pool_inv items mapper maxC st' \<and> (awaiting st' = [] \<longrightarrow> currentIndex st' = length items) \<and>
         length (progressCalls st') = length (progressCalls st) + length sched"
proof (induction sched arbitrary: st)
  case Nil
  then show ?case by simp
next
  case (Cons k ks)
  from Cons.prems(3) obtain st1 where s1: "settle items mapper options maxC k st = Some st1"
    and r: "runSchedule items mapper options maxC ks st1 = Some st'"
    by (auto split: option.splits)
  from pool_inv_settle [OF async q Cons.prems(1) s1] Cons.IH [OF _ _ r]
  show ?case by simp
qed

lemma mapWithConcurrency_inv:
  assumes "is_async mapper" "quiet options" "maxConcurrent options \<noteq> Some NaN"
    "mapWithConcurrency items mapper options sched = Some st"
  shows "pool_inv items mapper (effectiveMax options) st \<and>
         (awaiting st = [] \<longrightarrow> currentIndex st = length items) \<and>
         length (progressCalls st) = length sched"
  using runSchedule_inv [OF assms(1,2) _ _ assms(4) [unfolded mapWithConcurrency_def]]
    startPool_inv [OF assms(1,3), of items]
  by simp

lemma resolved_results:
  assumes "pool_inv items mapper maxC st" "resolved st"
  shows "results st = map (\<lambda>i. Some (expected mapper items i)) [0..<length items]"
    and "mapperCalls st = map (\<lambda>i. (Some (items ! i), i)) [0..<length items]"
    and "awaiting st = []"
  using assms by (auto simp: pool_inv_def item_at_def)

lemma resolved_iff:
  assumes "pool_inv items mapper maxC st" "awaiting st = [] \<longrightarrow> currentIndex st = length items"
  shows "resolved st \<longleftrightarrow> length (progressCalls st) = length items"
proof (cases "awaiting st")
  case Nil
  then show ?thesis using assms by (auto simp: pool_inv_def)
next
  case (Cons a as)
  then show ?thesis using assms by (auto simp: pool_inv_def)
qed

lemma runSchedule_snoc:
  "runSchedule items mapper options maxC (ks @ [k]) st =
     (case runSchedule items mapper options maxC ks st of None \<Rightarrow> None | Some st' \<Rightarrow> settle items mapper options maxC k st')"
  by (induction ks arbitrary: st) (auto split: option.splits)

lemma oldest_first_runs:
  assumes async: "is_async mapper" and q: "quiet options" and nan: "maxConcurrent options \<noteq> Some NaN"
  shows "n \<le> length items \<Longrightarrow> \<exists>st. mapWithConcurrency items mapper options (replicate n 0) = Some st"
proof (induction n)
  case 0
  then show ?case by (simp add: mapWithConcurrency_def)
next
  case (Suc n)
  then obtain st where st: "mapWithConcurrency items mapper options (replicate n 0) = Some st"
    by auto
  from mapWithConcurrency_inv [OF async q nan st]
  have inv: "pool_inv items mapper (effectiveMax options) st"
    and live: "awaiting st = [] \<longrightarrow> currentIndex st = length items"
    and len: "length (progressCalls st) = n" by simp_all
  have "awaiting st \<noteq> []"
  proof
    assume e: "awaiting st = []"
    with live inv have "length (progressCalls st) = length items" by (auto simp: pool_inv_def)
    with len Suc.prems show False by simp
  qed
  then have "settle items mapper options (effectiveMax options) 0 st \<noteq> None"
    by (simp add: settle_def)
  then obtain st' where "settle items mapper options (effectiveMax options) 0 st = Some st'"
    by auto
  moreover have "replicate (Suc n) (0::nat) = replicate n 0 @ [0]"
    by (simp add: replicate_append_same)
  ultimately have "mapWithConcurrency items mapper options (replicate (Suc n) 0) = Some st'"
    using st by (simp only: mapWithConcurrency_def runSchedule_snoc option.case)
  then show ?case by blast
qed

section \<open>Properties of the snippet fetcher\<close>

declare attemptLoop.simps [simp del]

lemma retriesBefore_Suc:
  "retriesBefore call (Suc n) = retriesBefore call n @ [Attempt n call, Backoff (2 ^ n * 100)]"
  by (simp add: retriesBefore_def)

lemma retriesBefore_0 [simp]: "retriesBefore call 0 = []"
  by (simp add: retriesBefore_def)

lemma attemptLoop_retries:
  assumes "\<forall>a<n. \<exists>e. restGetFileSlice service pos a (callFor t request) = Inl e \<and>
                     err_name (asError e) \<noteq> js ''AbortError''"
    and "int n \<le> retry"
  shows "\<exists>prev. attemptLoop service t retry pos request 0 None [] =
                attemptLoop service t retry pos request n prev (retriesBefore (callFor t request) n)"
  using assms
proof (induction n)
  case 0
  then show ?case by auto
next
  case (Suc n)
  then obtain prev where l: "attemptLoop service t retry pos request 0 None [] =
                attemptLoop service t retry pos request n prev (retriesBefore (callFor t request) n)"
    by auto
  from Suc.prems obtain e where e: "restGetFileSlice service pos n (callFor t request) = Inl e"
    "err_name (asError e) \<noteq> js ''AbortError''" by auto
  have "attemptLoop service t retry pos request n prev (retriesBefore (callFor t request) n)
      = attemptLoop service t retry pos request (Suc n) (Some e) (retriesBefore (callFor t request) (Suc n))"
    using e Suc.prems(2)
    by (simp add: attemptLoop.simps [of service t retry pos request n] Let_def retriesBefore_Suc)
  with l show ?case by metis
qed

lemma attemptLoop_end:
  assumes "int n \<le> retry"
  shows "restGetFileSlice service pos n (callFor t request) = Inr r \<Longrightarrow>
           attemptLoop service t retry pos request n prev evs =
             (evs @ [Attempt n (callFor t request)],
              Fulfilled \<lparr>result = r, metadata = \<lparr>md_actualStartLine = call_start (callFor t request),
                 md_actualEndLine = call_end (callFor t request),
                 md_chunkStartLine = startLine request, md_chunkEndLine = endLine request\<rparr>\<rparr>)"
    and "restGetFileSlice service pos n (callFor t request) = Inl e \<Longrightarrow>
           err_name (asError e) = js ''AbortError'' \<Longrightarrow>
           attemptLoop service t retry pos request n prev evs =
             (evs @ [Attempt n (callFor t request)], Rejected (Some e))"
    and "restGetFileSlice service pos n (callFor t request) = Inl e \<Longrightarrow>
           int n = retry \<Longrightarrow>
           attemptLoop service t retry pos request n prev evs =
             (evs @ [Attempt n (callFor t request)], Rejected (Some e))"
proof -
  show "restGetFileSlice service pos n (callFor t request) = Inr r \<Longrightarrow>
           attemptLoop service t retry pos request n prev evs =
             (evs @ [Attempt n (callFor t request)],
              Fulfilled \<lparr>result = r, metadata = \<lparr>md_actualStartLine = call_start (callFor t request),
                 md_actualEndLine = call_end (callFor t request),
                 md_chunkStartLine = startLine request, md_chunkEndLine = endLine request\<rparr>\<rparr>)"
    using assms by (simp add: attemptLoop.simps [of service t retry pos request n prev evs] Let_def)
  show "restGetFileSlice service pos n (callFor t request) = Inl e \<Longrightarrow>
           err_name (asError e) = js ''AbortError'' \<Longrightarrow>
           attemptLoop service t retry pos request n prev evs =
             (evs @ [Attempt n (callFor t request)], Rejected (Some e))"
    using assms by (simp add: attemptLoop.simps [of service t retry pos request n prev evs] Let_def)
  show "restGetFileSlice service pos n (callFor t request) = Inl e \<Longrightarrow>
           int n = retry \<Longrightarrow>
           attemptLoop service t retry pos request n prev evs =
             (evs @ [Attempt n (callFor t request)], Rejected (Some e))"
    by (simp add: attemptLoop.simps [of service t retry pos request n prev evs]
          attemptLoop.simps [of service t retry pos request "Suc n"] Let_def)
qed



lemma attemptLoop_prefix:
  "\<exists>rest. fst (attemptLoop service t retry pos request n prev evs) = evs @ rest"
proof (induction service t retry pos request n prev evs rule: attemptLoop.induct)
  case (1 service t retry pos request n prev evs)
  show ?case
  proof (cases "int n \<le> retry")
    case False
    then show ?thesis by (simp add: attemptLoop.simps [of service t retry pos request n])
  next
    case le: True
    show ?thesis
    proof (cases "restGetFileSlice service pos n (callFor t request)")
      case (Inr r)
      with le show ?thesis by (simp add: attemptLoop.simps [of service t retry pos request n] Let_def)
    next
      case (Inl e)
      show ?thesis
      proof (cases "err_name (asError e) = js ''AbortError''")
        case True
        with Inl le show ?thesis by (simp add: attemptLoop.simps [of service t retry pos request n] Let_def)
      next
        case False
        show ?thesis
        proof (cases "int n < retry")
          case True
          from "1.IH"(1) [OF le refl refl Inl False True]
          obtain rest where "fst (attemptLoop service t retry pos request (n + 1) (Some e)
                 ((evs @ [Attempt n (callFor t request)]) @ [Backoff (2 ^ n * 100)]))
                 = ((evs @ [Attempt n (callFor t request)]) @ [Backoff (2 ^ n * 100)]) @ rest"
            by blast
          with Inl False True le show ?thesis
            by (simp add: attemptLoop.simps [of service t retry pos request n] Let_def)
        next
          case nl: False
          from "1.IH"(2) [OF le refl refl Inl False nl]
          obtain rest where "fst (attemptLoop service t retry pos request (n + 1) (Some e)
                 (evs @ [Attempt n (callFor t request)]))
                 = (evs @ [Attempt n (callFor t request)]) @ rest"
            by blast
          with Inl False nl le show ?thesis
            by (simp add: attemptLoop.simps [of service t retry pos request n] Let_def)
        qed
      qed
    qed
  qed
qed

lemma attemptLoop_attempts:
  assumes "int n \<le> retry"
  shows "\<exists>rest. fst (attemptLoop service t retry pos request n prev evs)
               = evs @ Attempt n (callFor t request) # rest"
proof (cases "restGetFileSlice service pos n (callFor t request)")
  case (Inr r)
  from attemptLoop_end(1) [OF assms this] show ?thesis by simp
next
  case (Inl e)
  show ?thesis
  proof (cases "err_name (asError e) = js ''AbortError'' \<or> int n = retry")
    case True
    with attemptLoop_end(2,3) [OF assms Inl] show ?thesis by auto
  next
    case False
    then have eq: "attemptLoop service t retry pos request n prev evs =
        attemptLoop service t retry pos request (n + 1) (Some e)
          ((evs @ [Attempt n (callFor t request)]) @ [Backoff (2 ^ n * 100)])"
      using assms Inl by (simp add: attemptLoop.simps [of service t retry pos request n prev evs] Let_def)
    from attemptLoop_prefix [of service t retry pos request "n + 1" "Some e"
        "(evs @ [Attempt n (callFor t request)]) @ [Backoff (2 ^ n * 100)]"]
    show ?thesis unfolding eq by auto
  qed
qed














section \<open>Properties of the serialized size\<close>

lemma of_char_nat_small: "(of_char c :: nat) < 256"
proof -
  have "(of_char c :: nat) mod 256 < 256" by simp
  then show ?thesis by (simp only: of_char_mod_256)
qed

lemma unat_of_char: "unat (of_char c :: 16 word) = of_char c"
proof -
  have "(of_char c :: 16 word) = of_nat (of_char c)"
    by (simp add: of_nat_of_char)
  then have "unat (of_char c :: 16 word) = (of_char c :: nat) mod 2 ^ 16"
    by (simp only: unat_of_nat len_of_numeral_defs) simp
  also have "\<dots> = of_char c"
  proof (rule mod_less)
    have "(of_char c :: nat) < 256" by (rule of_char_nat_small)
    also have "(256 :: nat) < 2 ^ 16" by simp
    finally show "(of_char c :: nat) < 2 ^ 16" .
  qed
  finally show ?thesis .
qed

lemma of_char_not_high: "\<not> is_high (of_char c :: 16 word)"
proof
  assume "is_high (of_char c :: 16 word)"
  then have "unat (0xD800 :: 16 word) \<le> unat (of_char c :: 16 word)"
    by (simp only: is_high_def word_le_nat_alt)
  then have "(55296 :: nat) \<le> of_char c"
    by (simp only: unat_of_char) simp
  moreover have "(of_char c :: nat) < 256" by (rule of_char_nat_small)
  ultimately show False by linarith
qed

lemma byteLength_append:
  "closed a \<Longrightarrow> byteLength (a @ b) = byteLength a + byteLength b"
proof (induction a rule: byteLength.induct)
  case (1 u v vs)
  then show ?case by (cases vs) (auto simp: closed_def)
next
  case (2 u)
  then show ?case by (cases b) (auto simp: closed_def)
next
  case 3
  then show ?case by simp
qed

lemma closed_simps [simp]: "closed []" "closed [u] \<longleftrightarrow> \<not> is_high u"
  by (simp_all add: closed_def)

lemma closed_append: "closed b \<Longrightarrow> b \<noteq> [] \<or> closed a \<Longrightarrow> closed (a @ b)"
  by (cases "b = []") (auto simp: closed_def)

lemma closed_js: "closed (js s)"
  by (cases s rule: rev_cases) (simp_all add: closed_def js_def of_char_not_high)


lemma hexDigit_not_high: "d < 16 \<Longrightarrow> \<not> is_high (hexDigit d)"
proof
  assume d: "d < 16" and "is_high (hexDigit d)"
  then have "unat (0xD800 :: 16 word) \<le> unat (hexDigit d)"
    by (simp only: is_high_def word_le_nat_alt)
  moreover have "unat (hexDigit d) = (if d < 10 then 48 + d else 87 + d)"
    unfolding hexDigit_def using d by (simp add: unat_of_nat)
  ultimately show False using d by (simp split: if_splits)
qed

lemma low_not_high: "is_low v \<Longrightarrow> \<not> is_high v"
  by (auto simp: is_low_def is_high_def word_le_nat_alt)

lemma closed_unicodeEscape: "closed (unicodeEscape u)"
proof -
  have "last (unicodeEscape u) = hexDigit (unat u mod 16)"
    by (simp add: unicodeEscape_def)
  moreover have "\<not> is_high (hexDigit (unat u mod 16))"
    by (rule hexDigit_not_high) simp
  ultimately show ?thesis by (simp add: closed_def)
qed

lemma escape_letters_not_high:
  "\<not> is_high 0x62" "\<not> is_high 0x74" "\<not> is_high 0x6E" "\<not> is_high 0x66" "\<not> is_high 0x72"
  "\<not> is_high 0x22" "\<not> is_high 0x5C"
  by (simp_all add: is_high_def)

lemma closed_quoteUnit: "closed (quoteUnit u)"
  by (simp add: quoteUnit_def closed_unicodeEscape)
     (simp add: closed_def escape_letters_not_high)

lemma bool_bytes: "byteLength (js ''true'') = 4" "byteLength (js ''false'') = 5"
  by code_simp+

lemma closed_quoteUnits: "closed (quoteUnits s)"
proof (induction s rule: quoteUnits.induct)
  case (1 u v vs)
  show ?case
  proof (cases "is_high u \<and> is_low v")
    case True
    then have "quoteUnits (u # v # vs) = [u, v] @ quoteUnits vs" by simp
    moreover have "closed ([u, v] @ quoteUnits vs)"
      using True 1 by (intro closed_append) (auto simp: closed_def low_not_high)
    ultimately show ?thesis by simp
  next
    case False
    then have "quoteUnits (u # v # vs) = quoteUnit u @ quoteUnits (v # vs)"
      by (simp only: quoteUnits.simps if_False)
    moreover have "closed (quoteUnit u @ quoteUnits (v # vs))"
      using False 1 by (intro closed_append) (auto simp: closed_quoteUnit)
    ultimately show ?thesis by simp
  qed
next
  case (2 u)
  then show ?case by (simp add: closed_quoteUnit)
next
  case 3
  then show ?case by simp
qed

lemma quote_not_high [simp]: "\<not> is_high 0x22" "\<not> is_high 0x2C" "\<not> is_high 0x3A"
  "\<not> is_high 0x5B" "\<not> is_high 0x5D" "\<not> is_high 0x7B" "\<not> is_high 0x7D"
  by (simp_all add: is_high_def)

lemma unitBytes_ascii [simp]: "unitBytes 0x22 = 1" "unitBytes 0x2C = 1" "unitBytes 0x3A = 1"
  "unitBytes 0x5B = 1" "unitBytes 0x5D = 1" "unitBytes 0x7B = 1" "unitBytes 0x7D = 1"
  by (simp_all add: unitBytes_def)

lemma byteLength_quoteJSONString: "byteLength (quoteJSONString s) = 2 + strBytes s"
proof -
  have "byteLength ([0x22] @ (quoteUnits s @ [0x22])) = byteLength [0x22] + byteLength (quoteUnits s @ [0x22])"
    by (rule byteLength_append) simp
  also have "byteLength (quoteUnits s @ [0x22]) = byteLength (quoteUnits s) + byteLength [0x22]"
    by (rule byteLength_append) (rule closed_quoteUnits)
  finally show ?thesis by (simp add: quoteJSONString_def strBytes_def)
qed

lemma closed_quoteJSONString: "closed (quoteJSONString s)"
  by (simp add: quoteJSONString_def closed_def)

lemma closed_commaJoin: "\<forall>x \<in> set xs. closed x \<Longrightarrow> closed (commaJoin xs)"
proof (induction xs rule: commaJoin.induct)
  case (3 x y ys)
  have "closed (x @ ([0x2C] @ commaJoin (y # ys)))"
  proof (rule closed_append)
    show "closed ([0x2C] @ commaJoin (y # ys))"
      using 3 by (intro closed_append) auto
  qed simp
  then show ?case by simp
qed simp_all

lemma byteLength_commaJoin:
  "\<forall>x \<in> set xs. closed x \<Longrightarrow>
   byteLength (commaJoin xs) = sum_list (map byteLength xs) + (length xs - 1)"
proof (induction xs rule: commaJoin.induct)
  case (3 x y ys)
  have "byteLength (x @ ([0x2C] @ commaJoin (y # ys))) = byteLength x + byteLength ([0x2C] @ commaJoin (y # ys))"
    using 3 by (intro byteLength_append) simp
  also have "byteLength ([0x2C] @ commaJoin (y # ys)) = byteLength [0x2C] + byteLength (commaJoin (y # ys))"
    by (rule byteLength_append) simp
  finally show ?case using 3 by simp
qed simp_all

lemma byteLength_bracket:
  "closed s \<Longrightarrow> \<not> is_high a \<Longrightarrow> byteLength ([a] @ s @ [b]) = unitBytes a + byteLength s + unitBytes b"
proof -
  assume c: "closed s" and a: "\<not> is_high a"
  have "byteLength ([a] @ (s @ [b])) = byteLength [a] + byteLength (s @ [b])"
    using a by (intro byteLength_append) simp
  also have "byteLength (s @ [b]) = byteLength s + byteLength [b]"
    using c by (rule byteLength_append)
  finally show ?thesis by simp
qed

lemma stringify_bytes: "closed (stringify j) \<and> byteLength (stringify j) = jsonBytes j"
proof (induction j rule: stringify.induct)
  case (1 s)
  then show ?case by (simp add: closed_quoteJSONString byteLength_quoteJSONString)
next
  case (2 n)
  then show ?case by (simp add: closed_js)
next
  case (3 b)
  then show ?case by (simp add: closed_js bool_bytes)
next
  case (4 xs)
  let ?ys = "map stringify xs"
  have c: "\<forall>x \<in> set ?ys. closed x" using 4 by auto
  have "byteLength ([0x5B] @ commaJoin ?ys @ [0x5D])
      = unitBytes 0x5B + byteLength (commaJoin ?ys) + unitBytes 0x5D"
    by (rule byteLength_bracket) (simp_all add: closed_commaJoin c)
  also have "byteLength (commaJoin ?ys) = sum_list (map byteLength ?ys) + (length ?ys - 1)"
    by (rule byteLength_commaJoin [OF c])
  also have "sum_list (map byteLength ?ys) = sum_list (map jsonBytes xs)"
    unfolding map_map using 4 by (intro arg_cong [where f = sum_list] map_cong) auto
  finally have "byteLength (stringify (JArray xs)) = jsonBytes (JArray xs)"
    by simp
  moreover have "closed (stringify (JArray xs))"
    by (simp add: closed_def)
  ultimately show ?case by simp
next
  case (5 kvs)
  let ?f = "\<lambda>(k, v). quoteJSONString (js k) @ [0x3A] @ stringify v"
  let ?ys = "map ?f kvs"
  have c: "\<forall>x \<in> set ?ys. closed x"
  proof
    fix x assume "x \<in> set ?ys"
    then obtain k v where kv: "(k, v) \<in> set kvs" and x: "x = quoteJSONString (js k) @ ([0x3A] @ stringify v)"
      by auto
    have "closed (stringify v)" using 5 kv by auto
    then show "closed x" unfolding x
      by (intro closed_append) auto
  qed
  have each: "byteLength (?f kv) = (\<lambda>(k, v). 3 + strBytes (js k) + jsonBytes v) kv" if "kv \<in> set kvs" for kv
  proof -
    obtain k v where kv: "kv = (k, v)" by (cases kv)
    have "byteLength (quoteJSONString (js k) @ ([0x3A] @ stringify v))
        = byteLength (quoteJSONString (js k)) + byteLength ([0x3A] @ stringify v)"
      by (rule byteLength_append) (rule closed_quoteJSONString)
    also have "byteLength ([0x3A] @ stringify v) = byteLength [0x3A] + byteLength (stringify v)"
      by (rule byteLength_append) simp
    finally show ?thesis
      using 5 that kv by (auto simp: byteLength_quoteJSONString)
  qed
  have "byteLength ([0x7B] @ commaJoin ?ys @ [0x7D])
      = unitBytes 0x7B + byteLength (commaJoin ?ys) + unitBytes 0x7D"
    by (rule byteLength_bracket) (simp_all add: closed_commaJoin c)
  also have "byteLength (commaJoin ?ys) = sum_list (map byteLength ?ys) + (length ?ys - 1)"
    by (rule byteLength_commaJoin [OF c])
  also have "sum_list (map byteLength ?ys)
               = sum_list (map (\<lambda>(k, v). 3 + strBytes (js k) + jsonBytes v) kvs)"
    unfolding map_map using each by (intro arg_cong [where f = sum_list] map_cong) auto
  finally have "byteLength (stringify (JObject kvs)) = jsonBytes (JObject kvs)"
    by simp
  moreover have "closed (stringify (JObject kvs))"
    by (simp add: closed_def)
  ultimately show ?case by simp
qed

lemma jsonSizeBytes_eq: "jsonSizeBytes r = jsonBytes (resultJson r)"
  by (simp add: jsonSizeBytes_def stringify_bytes)

lemma plain_not_surrogate: "plainUnit u \<Longrightarrow> \<not> is_high u \<and> \<not> is_low u"
  by (auto simp: plainUnit_def is_high_def is_low_def word_le_nat_alt word_less_nat_alt)

lemma quoteUnit_plain: "plainUnit u \<Longrightarrow> quoteUnit u = [u]"
  using plain_not_surrogate [of u]
  by (auto simp: quoteUnit_def plainUnit_def word_le_nat_alt word_less_nat_alt)

lemma unitBytes_plain: "plainUnit u \<Longrightarrow> unitBytes u = 1"
  by (auto simp: unitBytes_def plainUnit_def word_le_nat_alt word_less_nat_alt)

lemma quoteUnits_plain: "list_all plainUnit us \<Longrightarrow> quoteUnits us = us"
  by (induction us rule: quoteUnits.induct) (auto simp: quoteUnit_plain dest: plain_not_surrogate)

lemma byteLength_plain: "list_all plainUnit us \<Longrightarrow> byteLength us = length us"
  by (induction us rule: byteLength.induct) (auto simp: unitBytes_plain dest: plain_not_surrogate)

lemma strBytes_plain: "list_all plainUnit us \<Longrightarrow> strBytes us = length us"
  by (simp add: strBytes_def quoteUnits_plain byteLength_plain)

section \<open>Properties of the trimming steps\<close>

declare trimPromptReady.simps [simp del] capPass.simps [simp del] dropLoop.simps [simp del]

lemma setText_res [simp]:
  "res (setText i t st) = (res st)\<lparr>blocks := (blocks (res st))[i := withText t (blocks (res st) ! i)]\<rparr>"
  "warned (setText i t st) = warned st"
  "consistent (setText i t st)"
  by (simp_all add: setText_def Let_def consistent_def)

lemma withText_withText [simp]: "withText b (withText a x) = withText b x"
  by (cases x) simp_all

lemma promptWith_promptWith [simp]: "promptWith (promptWith r a) b = promptWith r b"
  by (cases "1 < length (blocks r)") (simp_all add: promptWith_def list_update_beyond)

lemma trimPromptReady_char:
  "consistent st \<Longrightarrow> 1 < length (blocks (res st)) \<Longrightarrow> blocks (res st) ! 1 = TextBlock t \<Longrightarrow>
   \<exists>k. res (trimPromptReady cap t st) = promptWith (res st) ((cut90 ^^ k) t) \<and>
       consistent (trimPromptReady cap t st) \<and>
       warned (trimPromptReady cap t st) = warned st \<and>
       ((cut90 ^^ k) t = [] \<or> size_bytes (trimPromptReady cap t st) \<le> cap) \<and>
       (\<forall>j<k. (cut90 ^^ j) t \<noteq> [] \<and> cap < jsonSizeBytes (promptWith (res st) ((cut90 ^^ j) t)))"
proof (induction cap t st rule: trimPromptReady.induct)
  case (1 cap t st)
  have same: "promptWith (res st) t = res st"
    using "1.prems" by (simp add: promptWith_def list_update_same_conv)
  show ?case
  proof (cases "length t > 0 \<and> size_bytes st > cap")
    case False
    then have "trimPromptReady cap t st = st"
      by (simp only: trimPromptReady.simps [of cap t st] if_False)
    with False "1.prems" same show ?thesis
      by (intro exI [of _ 0]) auto
  next
    case True
    define t' where "t' = take (max (9 * length t div 10) 0) t"
    define st' where "st' = setText 1 t' st"
    have t': "t' = cut90 t" by (simp add: t'_def cut90_def)
    have eq: "trimPromptReady cap t st = trimPromptReady cap t' st'"
      using True by (simp add: trimPromptReady.simps [of cap t st] Let_def t'_def st'_def)
    have r': "res st' = promptWith (res st) t'"
      by (simp add: promptWith_def st'_def)
    have pre: "consistent st'" "1 < length (blocks (res st'))" "blocks (res st') ! 1 = TextBlock t'"
      "warned st' = warned st"
      using "1.prems" by (simp_all add: st'_def)
    note IH = "1.IH" [OF True refl refl, folded t'_def, folded st'_def, OF pre(1-3)]
    then obtain k where k: "res (trimPromptReady cap t' st') = promptWith (res st') ((cut90 ^^ k) t')"
       "consistent (trimPromptReady cap t' st')"
       "warned (trimPromptReady cap t' st') = warned st'"
       "(cut90 ^^ k) t' = [] \<or> size_bytes (trimPromptReady cap t' st') \<le> cap"
       "\<forall>j<k. (cut90 ^^ j) t' \<noteq> [] \<and> cap < jsonSizeBytes (promptWith (res st') ((cut90 ^^ j) t'))"
      by blast
    have pow: "(cut90 ^^ j) t' = (cut90 ^^ Suc j) t" for j
      unfolding t' by (simp add: funpow_swap1)
    have pp: "promptWith (res st') x = promptWith (res st) x" for x
      unfolding r' by simp
    have min: "\<forall>j<Suc k. (cut90 ^^ j) t \<noteq> [] \<and> cap < jsonSizeBytes (promptWith (res st) ((cut90 ^^ j) t))"
    proof (intro allI impI)
      fix j assume j: "j < Suc k"
      show "(cut90 ^^ j) t \<noteq> [] \<and> cap < jsonSizeBytes (promptWith (res st) ((cut90 ^^ j) t))"
      proof (cases j)
        case 0
        then show ?thesis using True same "1.prems"(1) by (simp add: consistent_def)
      next
        case (Suc j')
        with j k(5) have "(cut90 ^^ j') t' \<noteq> [] \<and> cap < jsonSizeBytes (promptWith (res st') ((cut90 ^^ j') t'))"
          by simp
        then show ?thesis unfolding Suc pow pp .
      qed
    qed
    have "res (trimPromptReady cap t st) = promptWith (res st) ((cut90 ^^ Suc k) t)"
      unfolding eq k(1) pp pow ..
    moreover have "consistent (trimPromptReady cap t st)"
      unfolding eq by (rule k(2))
    moreover have "warned (trimPromptReady cap t st) = warned st"
      unfolding eq k(3) by (rule pre(4))
    moreover have "(cut90 ^^ Suc k) t = [] \<or> size_bytes (trimPromptReady cap t st) \<le> cap"
      using k(4) unfolding eq pow .
    ultimately show ?thesis using min by blast
  qed
qed

lemma inRange_length [simp]: "length (inRange f i j bs) = length bs"
  by (simp add: inRange_def)

lemma inRange_nth:
  "k < length bs \<Longrightarrow> inRange f i j bs ! k = (if i \<le> k \<and> k < j then f (bs ! k) else bs ! k)"
  by (simp add: inRange_def)

lemma inRange_none: "j \<le> i \<Longrightarrow> inRange f i j bs = bs"
  by (rule nth_equalityI) (auto simp: inRange_nth)

lemma inRange_first:
  assumes "i < j"
  shows "inRange f (Suc i) j (bs[i := f (bs ! i)]) = inRange f i j bs"
proof (rule nth_equalityI)
  show "length (inRange f (Suc i) j (bs[i := f (bs ! i)])) = length (inRange f i j bs)" by simp
next
  fix k assume "k < length (inRange f (Suc i) j (bs[i := f (bs ! i)]))"
  then have k: "k < length bs" by simp
  consider "k < i" | "k = i" | "i < k" by linarith
  then show "inRange f (Suc i) j (bs[i := f (bs ! i)]) ! k = inRange f i j bs ! k"
    using k assms by cases (simp_all add: inRange_nth)
qed

lemma inRange_last:
  assumes "i \<le> m"
  shows "inRange f i m (bs[m := f (bs ! m)]) = inRange f i (Suc m) bs"
proof (rule nth_equalityI)
  show "length (inRange f i m (bs[m := f (bs ! m)])) = length (inRange f i (Suc m) bs)" by simp
next
  fix k assume "k < length (inRange f i m (bs[m := f (bs ! m)]))"
  then have k: "k < length bs" by simp
  consider "k < m" | "k = m" | "m < k" by linarith
  then show "inRange f i m (bs[m := f (bs ! m)]) ! k = inRange f i (Suc m) bs ! k"
    using k assms by cases (simp_all add: inRange_nth)
qed

lemma capBlock_update:
  "isResource b \<and> chars < length (blockText b) \<Longrightarrow> withText (take chars (blockText b)) b = capBlock chars b"
  "\<not> (isResource b \<and> chars < length (blockText b)) \<Longrightarrow> b = capBlock chars b"
  by (auto simp: capBlock_def)

lemma capPass_char:
  "consistent st \<Longrightarrow> i \<le> length (blocks (res st)) \<Longrightarrow>
   \<exists>j. i \<le> j \<and> j \<le> length (blocks (res st)) \<and>
       res (capPass cap chars i st) = (res st)\<lparr>blocks := inRange (capBlock chars) i j (blocks (res st))\<rparr> \<and>
       consistent (capPass cap chars i st) \<and>
       warned (capPass cap chars i st) = warned st \<and>
       (j = length (blocks (res st)) \<or> size_bytes (capPass cap chars i st) \<le> cap) \<and>
       (\<forall>j'. i \<le> j' \<and> j' < j \<longrightarrow>
          cap < jsonSizeBytes ((res st)\<lparr>blocks := inRange (capBlock chars) i j' (blocks (res st))\<rparr>))"
proof (induction cap chars i st rule: capPass.induct)
  case (1 cap chars i st)
  let ?bs = "blocks (res st)"
  show ?case
  proof (cases "i < length ?bs \<and> size_bytes st > cap")
    case False
    then have "capPass cap chars i st = st"
      by (simp only: capPass.simps [of cap chars i st] if_False)
    with False "1.prems" show ?thesis
      by (intro exI [of _ i]) (auto simp: inRange_none)
  next
    case True
    define b where "b = ?bs ! i"
    define st1 where "st1 = (if isResource b \<and> length (blockText b) > chars
                             then setText i (take chars (blockText b)) st else st)"
    have eq: "capPass cap chars i st = capPass cap chars (i + 1) st1"
      using True by (simp add: capPass.simps [of cap chars i st] Let_def st1_def b_def)
    have bs1: "res st1 = (res st)\<lparr>blocks := ?bs[i := capBlock chars (?bs ! i)]\<rparr>"
      by (auto simp: st1_def b_def capBlock_def)
    have pre: "consistent st1" "i + 1 \<le> length (blocks (res st1))" "warned st1 = warned st"
      using "1.prems" True by (auto simp: st1_def)
    have IH: "\<exists>j. i + 1 \<le> j \<and> j \<le> length (blocks (res st1)) \<and>
       res (capPass cap chars (i + 1) st1) = (res st1)\<lparr>blocks := inRange (capBlock chars) (i + 1) j (blocks (res st1))\<rparr> \<and>
       consistent (capPass cap chars (i + 1) st1) \<and>
       warned (capPass cap chars (i + 1) st1) = warned st1 \<and>
       (j = length (blocks (res st1)) \<or> size_bytes (capPass cap chars (i + 1) st1) \<le> cap) \<and>
       (\<forall>j'. i + 1 \<le> j' \<and> j' < j \<longrightarrow>
          cap < jsonSizeBytes ((res st1)\<lparr>blocks := inRange (capBlock chars) (i + 1) j' (blocks (res st1))\<rparr>))"
    proof (cases "isResource b \<and> length (blockText b) > chars")
      case c: True
      then have s: "st1 = setText i (take chars (blockText b)) st" by (simp add: st1_def)
      show ?thesis
        using "1.IH"(1) [OF True refl, folded b_def, OF c, folded s, OF pre(1,2)] .
    next
      case c: False
      then have s: "st1 = st" by (auto simp: st1_def)
      show ?thesis
        using "1.IH"(2) [OF True refl, folded b_def, OF c] pre(1,2) unfolding s by blast
    qed
    then obtain j where j: "i + 1 \<le> j" "j \<le> length (blocks (res st1))"
       "res (capPass cap chars (i + 1) st1) = (res st1)\<lparr>blocks := inRange (capBlock chars) (i + 1) j (blocks (res st1))\<rparr>"
       "consistent (capPass cap chars (i + 1) st1)"
       "warned (capPass cap chars (i + 1) st1) = warned st1"
       "j = length (blocks (res st1)) \<or> size_bytes (capPass cap chars (i + 1) st1) \<le> cap"
       "\<forall>j'. i + 1 \<le> j' \<and> j' < j \<longrightarrow>
          cap < jsonSizeBytes ((res st1)\<lparr>blocks := inRange (capBlock chars) (i + 1) j' (blocks (res st1))\<rparr>)"
      by blast
    have fold: "(res st1)\<lparr>blocks := inRange (capBlock chars) (i + 1) j' (blocks (res st1))\<rparr>
              = (res st)\<lparr>blocks := inRange (capBlock chars) i j' ?bs\<rparr>" if "i < j'" for j'
      unfolding bs1 using that by (simp add: inRange_first)
    have len: "length (blocks (res st1)) = length ?bs" by (simp add: bs1)
    have min: "\<forall>j'. i \<le> j' \<and> j' < j \<longrightarrow>
          cap < jsonSizeBytes ((res st)\<lparr>blocks := inRange (capBlock chars) i j' ?bs\<rparr>)"
    proof (intro allI impI)
      fix j' assume a: "i \<le> j' \<and> j' < j"
      show "cap < jsonSizeBytes ((res st)\<lparr>blocks := inRange (capBlock chars) i j' ?bs\<rparr>)"
      proof (cases "j' = i")
        case True
        then show ?thesis
          using \<open>i < length ?bs \<and> size_bytes st > cap\<close> "1.prems"(1)
          by (simp add: inRange_none consistent_def)
      next
        case False
        with a have "i + 1 \<le> j' \<and> j' < j" "i < j'" by auto
        with j(7) fold show ?thesis by metis
      qed
    qed
    have "i < j" using j(1) by simp
    show ?thesis
      unfolding eq
      using j(1,2,4,6) min fold [OF \<open>i < j\<close>] j(3) j(5) pre(3) len
      by (intro exI [of _ j]) auto
  qed
qed

lemma emptyBlock_update:
  "m < length bs \<and> isResource (bs ! m) \<Longrightarrow> bs[m := withText [] (bs ! m)] = bs[m := emptyBlock (bs ! m)]"
  "\<not> (m < length bs \<and> isResource (bs ! m)) \<Longrightarrow> bs = bs[m := emptyBlock (bs ! m)]"
  by (auto simp: emptyBlock_def list_update_beyond)

lemma emptyPass_char:
  "consistent st \<Longrightarrow>
   \<exists>j\<le>n. res (emptyPass cap n st) =
            (res st)\<lparr>blocks := inRange emptyBlock (j + 2) (n + 2) (blocks (res st))\<rparr> \<and>
       consistent (emptyPass cap n st) \<and>
       warned (emptyPass cap n st) = warned st \<and>
       (j = 0 \<or> size_bytes (emptyPass cap n st) \<le> cap) \<and>
       (\<forall>j'. j < j' \<and> j' \<le> n \<longrightarrow>
          cap < jsonSizeBytes ((res st)\<lparr>blocks := inRange emptyBlock (j' + 2) (n + 2) (blocks (res st))\<rparr>))"
proof (induction n arbitrary: st)
  case 0
  then show ?case by (simp add: inRange_none)
next
  case (Suc i)
  let ?bs = "blocks (res st)"
  show ?case
  proof (cases "size_bytes st > cap")
    case False
    then have "emptyPass cap (Suc i) st = st" by simp
    with False Suc.prems show ?thesis
      by (intro exI [of _ "Suc i"]) (auto simp: inRange_none)
  next
    case True
    define st1 where "st1 = (if i + 2 < length ?bs \<and> isResource (?bs ! (i + 2))
                             then setText (i + 2) [] st else st)"
    have eq: "emptyPass cap (Suc i) st = emptyPass cap i st1"
      using True by (simp add: Let_def st1_def)
    have bs1: "res st1 = (res st)\<lparr>blocks := ?bs[i + 2 := emptyBlock (?bs ! (i + 2))]\<rparr>"
    proof (cases "i + 2 < length ?bs \<and> isResource (?bs ! (i + 2))")
      case True
      then show ?thesis
        using emptyBlock_update(1) [OF True] by (simp add: st1_def)
    next
      case False
      then have "st1 = st" by (auto simp: st1_def)
      then show ?thesis
        using emptyBlock_update(2) [OF False] by simp
    qed
    have pre: "consistent st1" "warned st1 = warned st"
      using Suc.prems by (auto simp: st1_def)
    from Suc.IH [OF pre(1)]
    obtain j where j: "j \<le> i"
      "res (emptyPass cap i st1) = (res st1)\<lparr>blocks := inRange emptyBlock (j + 2) (i + 2) (blocks (res st1))\<rparr>"
      "consistent (emptyPass cap i st1)"
      "warned (emptyPass cap i st1) = warned st1"
      "j = 0 \<or> size_bytes (emptyPass cap i st1) \<le> cap"
      "\<forall>j'. j < j' \<and> j' \<le> i \<longrightarrow>
          cap < jsonSizeBytes ((res st1)\<lparr>blocks := inRange emptyBlock (j' + 2) (i + 2) (blocks (res st1))\<rparr>)"
      by blast
    have fold: "(res st1)\<lparr>blocks := inRange emptyBlock (j' + 2) (i + 2) (blocks (res st1))\<rparr>
              = (res st)\<lparr>blocks := inRange emptyBlock (j' + 2) (Suc i + 2) ?bs\<rparr>" if "j' \<le> i" for j'
      unfolding bs1 using that by (simp add: inRange_last)
    have min: "\<forall>j'. j < j' \<and> j' \<le> Suc i \<longrightarrow>
          cap < jsonSizeBytes ((res st)\<lparr>blocks := inRange emptyBlock (j' + 2) (Suc i + 2) ?bs\<rparr>)"
    proof (intro allI impI)
      fix j' assume a: "j < j' \<and> j' \<le> Suc i"
      show "cap < jsonSizeBytes ((res st)\<lparr>blocks := inRange emptyBlock (j' + 2) (Suc i + 2) ?bs\<rparr>)"
      proof (cases "j' = Suc i")
        case True
        then show ?thesis
          using \<open>size_bytes st > cap\<close> Suc.prems by (simp add: inRange_none consistent_def)
      next
        case False
        with a have "j < j' \<and> j' \<le> i" by auto
        with j(6) fold show ?thesis by metis
      qed
    qed
    show ?thesis
      unfolding eq
      using j(1,3,5) min fold [OF j(1)] j(2) j(4) pre(2)
      by (intro exI [of _ j]) auto
  qed
qed

lemma dropped_0 [simp]: "dropped 0 r = r"
  by (simp add: dropped_def)

lemma dropped_dropped: "dropped k (dropped 1 r) = dropped (Suc k) r"
  by (simp add: dropped_def min_def)

lemma dropLoop_char:
  "consistent st \<Longrightarrow>
   \<exists>k. k \<le> length (blocks (res st)) - 1 \<and>
       res (dropLoop cap st) = dropped k (res st) \<and>
       consistent (dropLoop cap st) \<and>
       warned (dropLoop cap st) = warned st \<and>
       (length (blocks (res st)) - k \<le> 1 \<or> size_bytes (dropLoop cap st) \<le> cap) \<and>
       (\<forall>k'<k. 1 < length (blocks (res st)) - k' \<and> cap < jsonSizeBytes (dropped k' (res st)))"
proof (induction cap st rule: dropLoop.induct)
  case (1 cap st)
  let ?bs = "blocks (res st)"
  show ?case
  proof (cases "length ?bs > 1 \<and> size_bytes st > cap")
    case False
    then have "dropLoop cap st = st"
      by (simp only: dropLoop.simps [of cap st] if_False)
    with False "1.prems" show ?thesis
      by (intro exI [of _ 0]) auto
  next
    case True
    define r1 where "r1 = (res st)\<lparr>blocks := butlast ?bs, hits := butlast (hits (res st))\<rparr>"
    define st1 where "st1 = st\<lparr>res := r1, size_bytes := jsonSizeBytes r1\<rparr>"
    have eq: "dropLoop cap st = dropLoop cap st1"
      using True by (simp add: dropLoop.simps [of cap st] Let_def st1_def r1_def)
    have r1: "res st1 = dropped 1 (res st)"
      by (simp add: st1_def r1_def dropped_def butlast_conv_take)
    have pre: "consistent st1" "warned st1 = warned st"
      by (simp_all add: st1_def consistent_def)
    have len1: "length (blocks (res st1)) = length ?bs - 1"
      by (simp add: st1_def r1_def)
    from "1.IH" [OF True refl, folded r1_def, folded st1_def, OF pre(1)]
    obtain k where k: "k \<le> length (blocks (res st1)) - 1"
       "res (dropLoop cap st1) = dropped k (res st1)"
       "consistent (dropLoop cap st1)"
       "warned (dropLoop cap st1) = warned st1"
       "length (blocks (res st1)) - k \<le> 1 \<or> size_bytes (dropLoop cap st1) \<le> cap"
       "\<forall>k'<k. 1 < length (blocks (res st1)) - k' \<and> cap < jsonSizeBytes (dropped k' (res st1))"
      by blast
    have min: "\<forall>k'<Suc k. 1 < length ?bs - k' \<and> cap < jsonSizeBytes (dropped k' (res st))"
    proof (intro allI impI)
      fix k' assume a: "k' < Suc k"
      show "1 < length ?bs - k' \<and> cap < jsonSizeBytes (dropped k' (res st))"
      proof (cases k')
        case 0
        then show ?thesis using True "1.prems" by (simp add: consistent_def)
      next
        case (Suc k'')
        with a k(6) have x: "1 < length (blocks (res st1)) - k''"
          and y: "cap < jsonSizeBytes (dropped k'' (res st1))"
          by simp_all
        from x have "1 < length ?bs - 1 - k''" by (simp only: len1)
        moreover from y have "cap < jsonSizeBytes (dropped (Suc k'') (res st))"
          by (simp only: r1 dropped_dropped)
        ultimately show ?thesis unfolding Suc by simp
      qed
    qed
    have "Suc k \<le> length ?bs - 1" using k(1) True unfolding len1 by linarith
    moreover have "res (dropLoop cap st) = dropped (Suc k) (res st)"
      unfolding eq k(2) r1 dropped_dropped ..
    moreover have "consistent (dropLoop cap st)" unfolding eq by (rule k(3))
    moreover have "warned (dropLoop cap st) = warned st" unfolding eq k(4) by (rule pre(2))
    moreover have "length ?bs - Suc k \<le> 1 \<or> size_bytes (dropLoop cap st) \<le> cap"
      using k(5) unfolding eq len1 by simp
    ultimately show ?thesis using min by blast
  qed
qed

lemma size_minimal:
  "jsonSizeBytes (r\<lparr>blocks := [b], hits := []\<rparr>) \<le> jsonSizeBytes (r\<lparr>blocks := b # xs, hits := hs\<rparr>)"
  by (simp add: jsonSizeBytes_eq resultJson_def metaJson_def)

lemma shape_withText [simp]: "shape (withText t b) = shape b"
  by (simp add: shape_def)

lemma shape_capBlock [simp]: "shape (capBlock c b) = shape b"
  by (simp add: capBlock_def)

lemma shape_emptyBlock [simp]: "shape (emptyBlock b) = shape b"
  by (simp add: emptyBlock_def)

lemma isResource_shape [simp]: "isResource (shape b) = isResource b"
  by (cases b) (simp_all add: shape_def)

lemma map_shape_inRange: "(\<And>b. shape (f b) = shape b) \<Longrightarrow> map shape (inRange f i j bs) = map shape bs"
  by (rule nth_equalityI) (auto simp: inRange_nth)

lemma retexted_refl [simp]: "retexted r r"
  by (auto simp: retexted_def intro: exI [of _ "blocks r"])

lemma isResource_cong: "map shape bs = map shape bs' \<Longrightarrow> i < length bs \<Longrightarrow> isResource (bs ! i) = isResource (bs' ! i)"
proof -
  assume a: "map shape bs = map shape bs'" and i: "i < length bs"
  then have "length bs' = length bs" by (metis length_map)
  with a i have "shape (bs ! i) = shape (bs' ! i)" by (metis nth_map)
  then show ?thesis by (metis isResource_shape)
qed

lemma retexted_trans: "retexted a b \<Longrightarrow> retexted b c \<Longrightarrow> retexted a c"
proof -
  assume "retexted a b" "retexted b c"
  then obtain bs cs where b: "b = a\<lparr>blocks := bs\<rparr>" "map shape bs = map shape (blocks a)"
      "isResource (blocks a ! 0) \<or> bs ! 0 = blocks a ! 0"
    and c: "c = b\<lparr>blocks := cs\<rparr>" "map shape cs = map shape (blocks b)"
      "isResource (blocks b ! 0) \<or> cs ! 0 = blocks b ! 0"
    unfolding retexted_def by blast
  have bb: "blocks b = bs" using b(1) by simp
  have "c = a\<lparr>blocks := cs\<rparr>" using b(1) c(1) by simp
  moreover have "map shape cs = map shape (blocks a)" using b(2) c(2) bb by simp
  moreover have "isResource (blocks a ! 0) \<or> cs ! 0 = blocks a ! 0"
  proof (cases "blocks a")
    case Nil
    then have "bs = []" "cs = []" using b(2) c(2) bb by auto
    then show ?thesis using Nil by simp
  next
    case (Cons x xs)
    then have "0 < length (blocks a)" by simp
    from isResource_cong [OF b(2) [symmetric] this]
    show ?thesis using b(3) c(3) bb by auto
  qed
  ultimately show ?thesis unfolding retexted_def by blast
qed

lemma retexted_update:
  assumes "i \<noteq> 0 \<or> isResource (blocks r ! 0) \<or> blocks r = []"
  shows "retexted r (r\<lparr>blocks := (blocks r)[i := withText t (blocks r ! i)]\<rparr>)"
proof -
  have "map shape ((blocks r)[i := withText t (blocks r ! i)]) = map shape (blocks r)"
  proof (rule nth_equalityI)
    fix k assume "k < length (map shape ((blocks r)[i := withText t (blocks r ! i)]))"
    then have k: "k < length (blocks r)" by simp
    show "map shape ((blocks r)[i := withText t (blocks r ! i)]) ! k = map shape (blocks r) ! k"
      using k by (cases "k = i") simp_all
  qed simp
  moreover have "isResource (blocks r ! 0) \<or> (blocks r)[i := withText t (blocks r ! i)] ! 0 = blocks r ! 0"
    using assms by (cases "i = 0") auto
  ultimately show ?thesis unfolding retexted_def by blast
qed

lemma retexted_inRange:
  assumes "\<And>b. shape (f b) = shape b" "\<And>b. \<not> isResource b \<Longrightarrow> f b = b"
  shows "retexted r (r\<lparr>blocks := inRange f i j (blocks r)\<rparr>)"
proof -
  have "map shape (inRange f i j (blocks r)) = map shape (blocks r)"
    using assms(1) by (rule map_shape_inRange)
  moreover have "isResource (blocks r ! 0) \<or> inRange f i j (blocks r) ! 0 = blocks r ! 0"
  proof (cases "blocks r")
    case Nil
    then show ?thesis by (simp add: inRange_def)
  next
    case (Cons x xs)
    then show ?thesis using assms(2) [of x] by (auto simp: inRange_nth)
  qed
  ultimately show ?thesis unfolding retexted_def by blast
qed

lemma consistent_start [simp]: "consistent (startTrimming r)"
  by (simp add: consistent_def startTrimming_def)

lemma text_block_cases: "\<not> isResource b \<Longrightarrow> b = TextBlock (blockText b)"
  by (cases b) simp_all

lemma step1_char:
  assumes "consistent st"
  shows "consistent (step1 cap st) \<and> warned (step1 cap st) = warned st \<and>
         retexted (res st) (res (step1 cap st)) \<and>
         (cap < size_bytes st \<and> 1 < length (blocks (res st)) \<and> blocks (res st) ! 1 = TextBlock t \<longrightarrow>
           (\<exists>k. res (step1 cap st) = promptWith (res st) ((cut90 ^^ k) t) \<and>
                ((cut90 ^^ k) t = [] \<or> jsonSizeBytes (res (step1 cap st)) \<le> cap) \<and>
                (\<forall>j<k. (cut90 ^^ j) t \<noteq> [] \<and> cap < jsonSizeBytes (promptWith (res st) ((cut90 ^^ j) t))))) \<and>
         (\<not> (1 < length (blocks (res st)) \<and> \<not> isResource (blocks (res st) ! 1)) \<longrightarrow> step1 cap st = st)"
proof (cases "cap < size_bytes st \<and> 1 < length (blocks (res st)) \<and> \<not> isResource (blocks (res st) ! 1)")
  case False
  then have "step1 cap st = st" by (auto simp: step1_def)
  with False assms show ?thesis by auto
next
  case True
  define u where "u = blockText (blocks (res st) ! 1)"
  have b: "blocks (res st) ! 1 = TextBlock u"
    using True text_block_cases unfolding u_def by blast
  have eq: "step1 cap st = trimPromptReady cap u st"
    using True by (simp add: step1_def u_def)
  from trimPromptReady_char [OF assms, of u cap] True b
  obtain k where k: "res (trimPromptReady cap u st) = promptWith (res st) ((cut90 ^^ k) u)"
       "consistent (trimPromptReady cap u st)"
       "warned (trimPromptReady cap u st) = warned st"
       "(cut90 ^^ k) u = [] \<or> size_bytes (trimPromptReady cap u st) \<le> cap"
       "\<forall>j<k. (cut90 ^^ j) u \<noteq> [] \<and> cap < jsonSizeBytes (promptWith (res st) ((cut90 ^^ j) u))"
    by blast
  have sz: "size_bytes (trimPromptReady cap u st) = jsonSizeBytes (res (trimPromptReady cap u st))"
    using k(2) by (simp add: consistent_def)
  have "retexted (res st) (promptWith (res st) ((cut90 ^^ k) u))"
    unfolding promptWith_def by (rule retexted_update) simp
  moreover have "blocks (res st) ! 1 = TextBlock t \<longrightarrow> t = u" using b by simp
  ultimately show ?thesis
    unfolding eq using k sz True by auto
qed

lemma capBlock_text [simp]: "\<not> isResource b \<Longrightarrow> capBlock c b = b"
  by (simp add: capBlock_def)

lemma emptyBlock_text [simp]: "\<not> isResource b \<Longrightarrow> emptyBlock b = b"
  by (simp add: emptyBlock_def)

lemma step2_char:
  assumes "consistent st"
  shows "consistent (step2 cap shrunk floorCap st) \<and> warned (step2 cap shrunk floorCap st) = warned st \<and>
         retexted (res st) (res (step2 cap shrunk floorCap st)) \<and>
         (cap < size_bytes st \<longrightarrow>
           (\<exists>j1 j2 r1. j1 \<le> length (blocks (res st)) \<and> j2 \<le> length (blocks (res st)) \<and>
              r1 = (res st)\<lparr>blocks := inRange (capBlock shrunk) 0 j1 (blocks (res st))\<rparr> \<and>
              res (step2 cap shrunk floorCap st) = r1\<lparr>blocks := inRange (capBlock floorCap) 0 j2 (blocks r1)\<rparr> \<and>
              (j1 = length (blocks (res st)) \<or> jsonSizeBytes r1 \<le> cap) \<and>
              (\<forall>j'<j1. cap < jsonSizeBytes ((res st)\<lparr>blocks := inRange (capBlock shrunk) 0 j' (blocks (res st))\<rparr>)) \<and>
              (j2 = length (blocks (res st)) \<or> jsonSizeBytes (res (step2 cap shrunk floorCap st)) \<le> cap) \<and>
              (\<forall>j'<j2. cap < jsonSizeBytes (r1\<lparr>blocks := inRange (capBlock floorCap) 0 j' (blocks r1)\<rparr>))))"
proof (cases "cap < size_bytes st")
  case False
  then have "step2 cap shrunk floorCap st = st" by (simp add: step2_def)
  with False assms show ?thesis by simp
next
  case True
  let ?p1 = "capPass cap shrunk 0 st"
  let ?p2 = "capPass cap floorCap 0 ?p1"
  have eq: "step2 cap shrunk floorCap st = ?p2" using True by (simp add: step2_def)
  from capPass_char [OF assms, of 0 cap shrunk]
  obtain j1 where j1: "j1 \<le> length (blocks (res st))"
       "res ?p1 = (res st)\<lparr>blocks := inRange (capBlock shrunk) 0 j1 (blocks (res st))\<rparr>"
       "consistent ?p1" "warned ?p1 = warned st"
       "j1 = length (blocks (res st)) \<or> size_bytes ?p1 \<le> cap"
       "\<forall>j'. 0 \<le> j' \<and> j' < j1 \<longrightarrow>
          cap < jsonSizeBytes ((res st)\<lparr>blocks := inRange (capBlock shrunk) 0 j' (blocks (res st))\<rparr>)"
    by auto
  from capPass_char [OF j1(3), of 0 cap floorCap]
  obtain j2 where j2: "j2 \<le> length (blocks (res ?p1))"
       "res ?p2 = (res ?p1)\<lparr>blocks := inRange (capBlock floorCap) 0 j2 (blocks (res ?p1))\<rparr>"
       "consistent ?p2" "warned ?p2 = warned ?p1"
       "j2 = length (blocks (res ?p1)) \<or> size_bytes ?p2 \<le> cap"
       "\<forall>j'. 0 \<le> j' \<and> j' < j2 \<longrightarrow>
          cap < jsonSizeBytes ((res ?p1)\<lparr>blocks := inRange (capBlock floorCap) 0 j' (blocks (res ?p1))\<rparr>)"
    by auto
  have len: "length (blocks (res ?p1)) = length (blocks (res st))" by (simp add: j1(2))
  have s1: "size_bytes ?p1 = jsonSizeBytes (res ?p1)" using j1(3) by (simp add: consistent_def)
  have s2: "size_bytes ?p2 = jsonSizeBytes (res ?p2)" using j2(3) by (simp add: consistent_def)
  have "retexted (res st) (res ?p1)"
    unfolding j1(2) by (rule retexted_inRange) simp_all
  moreover have "retexted (res ?p1) (res ?p2)"
    unfolding j2(2) by (rule retexted_inRange) simp_all
  ultimately have rt: "retexted (res st) (res ?p2)" by (rule retexted_trans)
  have "\<exists>j1 j2 r1. j1 \<le> length (blocks (res st)) \<and> j2 \<le> length (blocks (res st)) \<and>
              r1 = (res st)\<lparr>blocks := inRange (capBlock shrunk) 0 j1 (blocks (res st))\<rparr> \<and>
              res ?p2 = r1\<lparr>blocks := inRange (capBlock floorCap) 0 j2 (blocks r1)\<rparr> \<and>
              (j1 = length (blocks (res st)) \<or> jsonSizeBytes r1 \<le> cap) \<and>
              (\<forall>j'<j1. cap < jsonSizeBytes ((res st)\<lparr>blocks := inRange (capBlock shrunk) 0 j' (blocks (res st))\<rparr>)) \<and>
              (j2 = length (blocks (res st)) \<or> jsonSizeBytes (res ?p2) \<le> cap) \<and>
              (\<forall>j'<j2. cap < jsonSizeBytes (r1\<lparr>blocks := inRange (capBlock floorCap) 0 j' (blocks r1)\<rparr>))"
    apply (rule exI [of _ j1], rule exI [of _ j2], rule exI [of _ "res ?p1"])
    using j1(1,2,5,6) j2(1,2,5,6) len s1 s2 by auto
  with rt j2(3,4) j1(4) show ?thesis unfolding eq by simp
qed

lemma step3_char:
  assumes "consistent st"
  shows "consistent (step3 cap n st) \<and> warned (step3 cap n st) = warned st \<and>
         retexted (res st) (res (step3 cap n st)) \<and>
         length (blocks (res (step3 cap n st))) = length (blocks (res st)) \<and>
         (cap < size_bytes st \<longrightarrow>
           (\<exists>j\<le>n. res (step3 cap n st) =
                     (res st)\<lparr>blocks := inRange emptyBlock (j + 2) (n + 2) (blocks (res st))\<rparr> \<and>
                (j = 0 \<or> jsonSizeBytes (res (step3 cap n st)) \<le> cap) \<and>
                (\<forall>j'. j < j' \<and> j' \<le> n \<longrightarrow>
                   cap < jsonSizeBytes ((res st)\<lparr>blocks := inRange emptyBlock (j' + 2) (n + 2) (blocks (res st))\<rparr>))))"
proof (cases "cap < size_bytes st")
  case False
  then have "step3 cap n st = st" by (simp add: step3_def)
  with False assms show ?thesis by simp
next
  case True
  have eq: "step3 cap n st = emptyPass cap n st" using True by (simp add: step3_def)
  from emptyPass_char [OF assms, of n cap]
  obtain j where j: "j \<le> n"
      "res (emptyPass cap n st) = (res st)\<lparr>blocks := inRange emptyBlock (j + 2) (n + 2) (blocks (res st))\<rparr>"
      "consistent (emptyPass cap n st)"
      "warned (emptyPass cap n st) = warned st"
      "j = 0 \<or> size_bytes (emptyPass cap n st) \<le> cap"
      "\<forall>j'. j < j' \<and> j' \<le> n \<longrightarrow>
          cap < jsonSizeBytes ((res st)\<lparr>blocks := inRange emptyBlock (j' + 2) (n + 2) (blocks (res st))\<rparr>)"
    by blast
  have s: "size_bytes (emptyPass cap n st) = jsonSizeBytes (res (emptyPass cap n st))"
    using j(3) by (simp add: consistent_def)
  have "retexted (res st) (res (emptyPass cap n st))"
    unfolding j(2) by (rule retexted_inRange) simp_all
  moreover have "length (blocks (res (emptyPass cap n st))) = length (blocks (res st))"
    by (simp add: j(2))
  ultimately show ?thesis
    unfolding eq using j s by auto
qed

lemma step4_char:
  assumes "consistent st"
  shows "(size_bytes st \<le> cap \<longrightarrow> step4 cap st = st) \<and>
         (cap < size_bytes st \<longrightarrow>
           (\<exists>k \<le> length (blocks (res st)) - 1.
              res (step4 cap st) = (dropped k (res st))\<lparr>complete := Some False\<rparr> \<and>
              size_bytes (step4 cap st) = jsonSizeBytes (dropped k (res st)) \<and>
              warned (step4 cap st) = warned st @ [trimWarning] \<and>
              (length (blocks (res st)) - k \<le> 1 \<or> jsonSizeBytes (dropped k (res st)) \<le> cap) \<and>
              (\<forall>k'<k. 1 < length (blocks (res st)) - k' \<and> cap < jsonSizeBytes (dropped k' (res st)))))"
proof (cases "cap < size_bytes st")
  case False
  then show ?thesis by (simp add: step4_def)
next
  case True
  from dropLoop_char [OF assms, of cap]
  obtain k where k: "k \<le> length (blocks (res st)) - 1"
       "res (dropLoop cap st) = dropped k (res st)"
       "consistent (dropLoop cap st)"
       "warned (dropLoop cap st) = warned st"
       "length (blocks (res st)) - k \<le> 1 \<or> size_bytes (dropLoop cap st) \<le> cap"
       "\<forall>k'<k. 1 < length (blocks (res st)) - k' \<and> cap < jsonSizeBytes (dropped k' (res st))"
    by blast
  have s: "size_bytes (dropLoop cap st) = jsonSizeBytes (dropped k (res st))"
    using k(3) k(2) by (simp add: consistent_def)
  have "res (step4 cap st) = (dropped k (res st))\<lparr>complete := Some False\<rparr>"
    "warned (step4 cap st) = warned st @ [trimWarning]"
    "size_bytes (step4 cap st) = size_bytes (dropLoop cap st)"
    using True k(2,4) by (simp_all add: step4_def Let_def trimWarning_def)
  with True k(1,5,6) s show ?thesis by auto
qed

text \<open>Lower bounds on the size, and steps that change nothing.\<close>

lemma strBytes_Nil [simp]: "strBytes [] = 0"
  by (simp add: strBytes_def)

lemma strBytes_padding [simp]: "strBytes (padding n) = n"
proof -
  have "list_all plainUnit (padding n)"
    by (simp add: padding_def list_all_iff plainUnit_def)
  then have "strBytes (padding n) = length (padding n)" by (rule strBytes_plain)
  then show ?thesis by (simp add: padding_def)
qed

lemma shape_bytes:
  "shape b' = shape b \<Longrightarrow> jsonBytes (blockJson (shape b)) \<le> jsonBytes (blockJson b')"
  by (cases b; cases b') (auto simp: shape_def)

lemma shaped_sum:
  "map shape bs' = map shape bs \<Longrightarrow>
   sum_list (map (\<lambda>b. jsonBytes (blockJson (shape b))) bs) \<le> sum_list (map (\<lambda>b. jsonBytes (blockJson b)) bs')"
proof (induction bs' arbitrary: bs)
  case Nil
  then show ?case by simp
next
  case (Cons b' bs')
  then obtain b cs where bs: "bs = b # cs" "shape b' = shape b" "map shape bs' = map shape cs"
    by (cases bs) auto
  from shape_bytes [OF bs(2)] Cons.IH [OF bs(3)] show ?case
    unfolding bs(1) by simp
qed

lemma size_shape_le:
  assumes "map shape bs' = map shape (blocks r)"
  shows "jsonSizeBytes (r\<lparr>blocks := map shape (blocks r)\<rparr>) \<le> jsonSizeBytes (r\<lparr>blocks := bs'\<rparr>)"
proof -
  have "length bs' = length (blocks r)" using assms by (metis length_map)
  with shaped_sum [OF assms] show ?thesis
    by (simp add: jsonSizeBytes_eq resultJson_def metaJson_def comp_def)
qed

lemma trim_floor:
  assumes "retexted r r'" and "cap < jsonSizeBytes (r\<lparr>blocks := map shape (blocks r)\<rparr>)"
  shows "cap < jsonSizeBytes r'"
proof -
  from assms(1) obtain bs where "r' = r\<lparr>blocks := bs\<rparr>" "map shape bs = map shape (blocks r)"
    unfolding retexted_def by blast
  with size_shape_le [of bs r] assms(2) show ?thesis by simp
qed

lemma inRange_id: "(\<And>b. b \<in> set bs \<Longrightarrow> f b = b) \<Longrightarrow> inRange f i j bs = bs"
  by (auto simp: inRange_def intro!: nth_equalityI)

lemma cut90_Nil [simp]: "(cut90 ^^ k) [] = []"
  by (induction k) (simp_all add: cut90_def)

text \<open>Steps that find nothing left to shorten.\<close>

lemma step1_idle:
  assumes "1 < length (blocks (res st)) \<Longrightarrow> \<not> isResource (blocks (res st) ! 1) \<Longrightarrow>
             blockText (blocks (res st) ! 1) = []"
  shows "step1 cap st = st"
  using assms by (auto simp: step1_def trimPromptReady.simps [of cap "[]" st])

lemma capPass_idle:
  "(\<And>b. b \<in> set (blocks (res st)) \<Longrightarrow> isResource b \<Longrightarrow> length (blockText b) \<le> chars) \<Longrightarrow>
   capPass cap chars i st = st"
proof (induction cap chars i st rule: capPass.induct)
  case (1 cap chars i st)
  show ?case
  proof (cases "i < length (blocks (res st)) \<and> size_bytes st > cap")
    case True
    then have "blocks (res st) ! i \<in> set (blocks (res st))" by simp
    with "1.prems" have n: "\<not> (isResource (blocks (res st) ! i) \<and> chars < length (blockText (blocks (res st) ! i)))"
      by (meson not_le)
    have "capPass cap chars i st = capPass cap chars (i + 1) st"
      using True n by (auto simp: capPass.simps [of cap chars i st] Let_def)
    also have "\<dots> = st"
      using "1.IH"(2) [OF True refl n] "1.prems" by simp
    finally show ?thesis .
  next
    case False
    then show ?thesis
      unfolding capPass.simps [of cap chars i st] by (simp only: if_False)
  qed
qed

lemma setText_idle:
  assumes "consistent st" "i < length (blocks (res st))" "blockText (blocks (res st) ! i) = t"
  shows "setText i t st = st"
proof -
  have "withText t (blocks (res st) ! i) = blocks (res st) ! i"
    using assms(3) by (cases "blocks (res st) ! i") auto
  then show ?thesis
    using assms(1) by (simp add: setText_def Let_def consistent_def)
qed

lemma emptyPass_idle:
  assumes "consistent st"
    and "\<And>b. b \<in> set (blocks (res st)) \<Longrightarrow> isResource b \<Longrightarrow> blockText b = []"
  shows "emptyPass cap n st = st"
proof (induction n)
  case 0
  show ?case by simp
next
  case (Suc n)
  have "setText (n + 2) [] st = st"
    if "n + 2 < length (blocks (res st))" "isResource (blocks (res st) ! (n + 2))"
    using that assms by (intro setText_idle) auto
  with Suc show ?case by (auto simp: Let_def)
qed

lemma steps_idle:
  assumes "consistent st"
    and "1 < length (blocks (res st)) \<Longrightarrow> \<not> isResource (blocks (res st) ! 1) \<Longrightarrow>
             blockText (blocks (res st) ! 1) = []"
    and "\<And>b. b \<in> set (blocks (res st)) \<Longrightarrow> isResource b \<Longrightarrow> blockText b = []"
  shows "step3 cap n (step2 cap shrunk floorCap (step1 cap st)) = st"
proof -
  have 1: "step1 cap st = st" using assms(2) by (rule step1_idle)
  have 2: "step2 cap shrunk floorCap st = st"
    using assms(3) by (simp add: step2_def capPass_idle)
  have 3: "step3 cap n st = st"
    using assms(1,3) by (simp add: step3_def emptyPass_idle)
  show ?thesis by (simp only: 1 2 3)
qed

text \<open>The trimming code run on the concrete results.\<close>

lemmas size_eval = jsonSizeBytes_eq resultJson_def metaJson_def hitJson_def optional_def
  strBytes_plain byteLength_plain js_def plainUnit_def

lemma overBudget_sizes:
  "jsonSizeBytes overBudget = 71947"
  "jsonSizeBytes (overBudget\<lparr>blocks := map shape (blocks overBudget)\<rparr>) = 71831"
  "jsonSizeBytes trimmedOnce = 71681"
  "jsonSizeBytes (trimmedOnce\<lparr>complete := Some True\<rparr>) = 71680"
  "jsonSizeBytes trimmedTwice = 71501"
  "jsonSizeBytes noHits = 71765"
  "jsonSizeBytes (noHits\<lparr>complete := Some False\<rparr>) = 71766"
  by (simp_all add: trimmedOnce_def trimmedTwice_def noHits_def overBudget_def tinyResult_def shape_def size_eval
      del: byteLength.simps)

lemma tinyResult_sizes:
  "jsonSizeBytes tinyResult = 640"
  "jsonSizeBytes (farOver\<lparr>blocks := [TextBlock (js ''Found 2 results across 1 repo.'')], hits := []\<rparr>) = 72179"
  by (simp_all add: farOver_def tinyResult_def size_eval del: byteLength.simps)

lemma overBudget_emptied:
  "jsonSizeBytes (overBudget\<lparr>blocks :=
       [TextBlock (js ''Found 2 results across 1 repo.''),
        TextBlock [],
        ResourceBlock (js ''kb://r/a.ts#L1-L2'') (js ''text/typescript'') [],
        ResourceBlock (js ''kb://r/b.ts#L3-L4'') (js ''text/typescript'') []]\<rparr>) = 71861"
  by (simp add: overBudget_def tinyResult_def size_eval del: byteLength.simps)

lemma overBudget_once:
  "res (trimPayload 2 overBudget) = trimmedOnce \<and>
   size_bytes (trimPayload 2 overBudget) = 71680 \<and>
   warned (trimPayload 2 overBudget) = [trimWarning]"
proof -
  let ?cap = "CAP_BYTES"
  let ?t = "js ''[r] a.ts#L1-L2 const a = 1; [r] b.ts#L3-L4 export {}''"
  let ?s0 = "startTrimming overBudget"
  let ?s1 = "step1 ?cap ?s0"
  let ?s2 = "step2 ?cap SHRUNK_SNIPPET_CHAR_CAP MIN_SNIPPET_CHAR_FLOOR ?s1"
  let ?s3 = "step3 ?cap 2 ?s2"
  define r1 where "r1 = overBudget\<lparr>blocks :=
       [TextBlock (js ''Found 2 results across 1 repo.''),
        TextBlock [],
        ResourceBlock (js ''kb://r/a.ts#L1-L2'') (js ''text/typescript'') (js ''const a = 1; const b = 2;''),
        ResourceBlock (js ''kb://r/b.ts#L3-L4'') (js ''text/typescript'') (js ''export {}'')]\<rparr>"
  define r3 where "r3 = overBudget\<lparr>blocks :=
       [TextBlock (js ''Found 2 results across 1 repo.''),
        TextBlock [],
        ResourceBlock (js ''kb://r/a.ts#L1-L2'') (js ''text/typescript'') [],
        ResourceBlock (js ''kb://r/b.ts#L3-L4'') (js ''text/typescript'') []]\<rparr>"
  have T: "trimPayload 2 overBudget = step4 ?cap ?s3"
    by (simp add: trimPayload_def trimWith_def startTrimming_def)
  have cap: "?cap = 71680" by (simp add: CAP_BYTES_def)
  have floor: "?cap < jsonSizeBytes (overBudget\<lparr>blocks := map shape (blocks overBudget)\<rparr>)"
    unfolding cap overBudget_sizes by simp
  have c1: "consistent ?s1" "warned ?s1 = warned ?s0" "retexted (res ?s0) (res ?s1)"
    using step1_char [OF consistent_start, of ?cap overBudget] by blast+
  have c2: "consistent ?s2" "warned ?s2 = warned ?s1" "retexted (res ?s1) (res ?s2)"
    using step2_char [OF c1(1), of ?cap SHRUNK_SNIPPET_CHAR_CAP MIN_SNIPPET_CHAR_FLOOR] by blast+
  have c3: "consistent ?s3" "warned ?s3 = warned ?s2" "retexted (res ?s2) (res ?s3)"
    using step3_char [OF c2(1), of ?cap 2] by blast+
  have w3: "warned ?s3 = []" using c1(2) c2(2) c3(2) by (simp add: startTrimming_def)
  have x1: "retexted overBudget (res ?s1)" using c1(3) by (simp add: startTrimming_def)
  have x2: "retexted overBudget (res ?s2)" using retexted_trans [OF x1 c2(3)] .
  have x3: "retexted overBudget (res ?s3)" using retexted_trans [OF x2 c3(3)] .
  have big0: "?cap < size_bytes ?s0"
    unfolding cap by (simp add: startTrimming_def overBudget_sizes)
  have big1: "?cap < size_bytes ?s1"
    using trim_floor [OF x1 floor] c1(1) by (simp add: consistent_def)
  have big2: "?cap < size_bytes ?s2"
    using trim_floor [OF x2 floor] c2(1) by (simp add: consistent_def)
  have big3: "?cap < size_bytes ?s3"
    using trim_floor [OF x3 floor] c3(1) by (simp add: consistent_def)
  have b0: "1 < length (blocks (res ?s0))" "blocks (res ?s0) ! 1 = TextBlock ?t"
    by (simp_all add: startTrimming_def overBudget_def tinyResult_def)
  from step1_char [OF consistent_start, of ?cap overBudget ?t] big0 b0
  obtain k where k: "res ?s1 = promptWith (res ?s0) ((cut90 ^^ k) ?t)"
    "(cut90 ^^ k) ?t = [] \<or> jsonSizeBytes (res ?s1) \<le> ?cap"
    by blast
  from k(2) big1 c1(1) have "(cut90 ^^ k) ?t = []" by (simp add: consistent_def)
  then have s1: "res ?s1 = r1"
    unfolding k(1) by (simp add: promptWith_def startTrimming_def r1_def overBudget_def tinyResult_def)
  have id1: "inRange (capBlock c) 0 j (blocks r1) = blocks r1" if "300 \<le> c" for c j
    by (rule inRange_id) (use that in \<open>auto simp: r1_def capBlock_def js_def\<close>)
  from step2_char [OF c1(1), of ?cap SHRUNK_SNIPPET_CHAR_CAP MIN_SNIPPET_CHAR_FLOOR] big1
  obtain j1 j2 where "res ?s2 =
      ((res ?s1)\<lparr>blocks := inRange (capBlock SHRUNK_SNIPPET_CHAR_CAP) 0 j1 (blocks (res ?s1))\<rparr>)
        \<lparr>blocks := inRange (capBlock MIN_SNIPPET_CHAR_FLOOR) 0 j2
            (blocks ((res ?s1)\<lparr>blocks := inRange (capBlock SHRUNK_SNIPPET_CHAR_CAP) 0 j1 (blocks (res ?s1))\<rparr>))\<rparr>"
    by blast
  then have s2: "res ?s2 = r1"
    unfolding s1 by (simp add: id1 SHRUNK_SNIPPET_CHAR_CAP_def MIN_SNIPPET_CHAR_FLOOR_def)
  from step3_char [OF c2(1), of ?cap 2] big2
  obtain j where j: "j \<le> 2"
    "res ?s3 = (res ?s2)\<lparr>blocks := inRange emptyBlock (j + 2) (2 + 2) (blocks (res ?s2))\<rparr>"
    "j = 0 \<or> jsonSizeBytes (res ?s3) \<le> ?cap"
    by blast
  from j(3) big3 c3(1) have "j = 0" by (simp add: consistent_def)
  then have s3: "res ?s3 = r3"
    unfolding j(2) s2
    by (simp add: r1_def r3_def inRange_def emptyBlock_def upt_rec)
  have d0: "jsonSizeBytes r3 = 71861"
    using overBudget_emptied by (simp add: r3_def)
  have d1: "dropped 1 r3 = trimmedOnce\<lparr>complete := Some True\<rparr>"
    by (simp add: dropped_def r3_def trimmedOnce_def overBudget_def tinyResult_def)
  from step4_char [OF c3(1), of ?cap] big3
  obtain k where k: "k \<le> length (blocks (res ?s3)) - 1"
    "res (step4 ?cap ?s3) = (dropped k (res ?s3))\<lparr>complete := Some False\<rparr>"
    "size_bytes (step4 ?cap ?s3) = jsonSizeBytes (dropped k (res ?s3))"
    "warned (step4 ?cap ?s3) = warned ?s3 @ [trimWarning]"
    "length (blocks (res ?s3)) - k \<le> 1 \<or> jsonSizeBytes (dropped k (res ?s3)) \<le> ?cap"
    "\<forall>k'<k. 1 < length (blocks (res ?s3)) - k' \<and> ?cap < jsonSizeBytes (dropped k' (res ?s3))"
    by blast
  note k3 = k [unfolded s3]
  have len3: "length (blocks r3) = 4" by (simp add: r3_def)
  have "k \<noteq> 0"
  proof
    assume "k = 0"
    with k3(5) show False by (simp add: len3 cap d0)
  qed
  moreover have "k < 2"
  proof (rule ccontr)
    assume "\<not> k < 2"
    then have "1 < k" by simp
    with k3(6) have "?cap < jsonSizeBytes (dropped 1 r3)" by blast
    then show False unfolding d1 by (simp add: cap overBudget_sizes)
  qed
  ultimately have k1: "k = 1" by simp
  have "res (step4 ?cap ?s3) = trimmedOnce"
    unfolding k3(2) k1 d1 by (simp add: trimmedOnce_def)
  moreover have "size_bytes (step4 ?cap ?s3) = 71680"
    unfolding k3(3) k1 d1 overBudget_sizes ..
  moreover have "warned (step4 ?cap ?s3) = [trimWarning]"
    unfolding k(4) w3 by simp
  ultimately show ?thesis unfolding T by blast
qed



lemma trimmedOnce_again:
  "res (trimPayload 2 trimmedOnce) = trimmedTwice \<and>
   size_bytes (trimPayload 2 trimmedOnce) = 71501 \<and>
   warned (trimPayload 2 trimmedOnce) = [trimWarning]"
proof -
  let ?cap = "CAP_BYTES"
  let ?s0 = "startTrimming trimmedOnce"
  have cap: "?cap = 71680" by (simp add: CAP_BYTES_def)
  have bs: "blocks trimmedOnce =
       [TextBlock (js ''Found 2 results across 1 repo.''),
        TextBlock [],
        ResourceBlock (js ''kb://r/a.ts#L1-L2'') (js ''text/typescript'') []]"
    by (simp add: trimmedOnce_def)
  have idle: "step3 ?cap 2 (step2 ?cap SHRUNK_SNIPPET_CHAR_CAP MIN_SNIPPET_CHAR_FLOOR (step1 ?cap ?s0)) = ?s0"
    by (rule steps_idle) (auto simp: startTrimming_def consistent_def bs)
  have T: "trimPayload 2 trimmedOnce = step4 ?cap ?s0"
    unfolding trimPayload_def trimWith_def startTrimming_def [symmetric] idle ..
  have big: "?cap < size_bytes ?s0"
    by (simp add: startTrimming_def overBudget_sizes cap)
  have d1: "dropped 1 trimmedOnce = trimmedTwice"
    by (simp add: dropped_def trimmedOnce_def trimmedTwice_def)
  from step4_char [OF consistent_start, of trimmedOnce ?cap] big
  obtain k where k: "k \<le> length (blocks (res ?s0)) - 1"
    "res (step4 ?cap ?s0) = (dropped k (res ?s0))\<lparr>complete := Some False\<rparr>"
    "size_bytes (step4 ?cap ?s0) = jsonSizeBytes (dropped k (res ?s0))"
    "warned (step4 ?cap ?s0) = warned ?s0 @ [trimWarning]"
    "length (blocks (res ?s0)) - k \<le> 1 \<or> jsonSizeBytes (dropped k (res ?s0)) \<le> ?cap"
    "\<forall>k'<k. 1 < length (blocks (res ?s0)) - k' \<and> ?cap < jsonSizeBytes (dropped k' (res ?s0))"
    by blast
  have r0: "res ?s0 = trimmedOnce" by (simp add: startTrimming_def)
  note k3 = k [unfolded r0]
  have "k \<noteq> 0"
  proof
    assume "k = 0"
    with k3(5) show False by (simp add: bs cap overBudget_sizes)
  qed
  moreover have "k < 2"
  proof (rule ccontr)
    assume "\<not> k < 2"
    then have "1 < k" by simp
    with k3(6) have "?cap < jsonSizeBytes (dropped 1 trimmedOnce)" by blast
    then show False unfolding d1 by (simp add: cap overBudget_sizes)
  qed
  ultimately have k1: "k = 1" by simp
  have "res (step4 ?cap ?s0) = trimmedTwice"
    unfolding k3(2) k1 d1 by (simp add: trimmedTwice_def)
  moreover have "size_bytes (step4 ?cap ?s0) = 71501"
    unfolding k3(3) k1 d1 overBudget_sizes ..
  moreover have "warned (step4 ?cap ?s0) = [trimWarning]"
    unfolding k(4) by (simp add: startTrimming_def)
  ultimately show ?thesis unfolding T by blast
qed

lemma noHits_trimmed:
  "res (trimPayload 0 noHits) = noHits\<lparr>complete := Some False\<rparr> \<and>
   size_bytes (trimPayload 0 noHits) = 71765 \<and>
   warned (trimPayload 0 noHits) = [trimWarning]"
proof -
  let ?cap = "CAP_BYTES"
  let ?s0 = "startTrimming noHits"
  have cap: "?cap = 71680" by (simp add: CAP_BYTES_def)
  have bs: "blocks noHits = [TextBlock (js ''Found 0 results.'')]"
    by (simp add: noHits_def)
  have idle: "step3 ?cap 0 (step2 ?cap SHRUNK_SNIPPET_CHAR_CAP MIN_SNIPPET_CHAR_FLOOR (step1 ?cap ?s0)) = ?s0"
    by (rule steps_idle) (auto simp: startTrimming_def consistent_def bs)
  have T: "trimPayload 0 noHits = step4 ?cap ?s0"
    unfolding trimPayload_def trimWith_def startTrimming_def [symmetric] idle ..
  have big: "?cap < size_bytes ?s0"
    by (simp add: startTrimming_def overBudget_sizes cap)
  from step4_char [OF consistent_start, of noHits ?cap] big
  obtain k where k: "k \<le> length (blocks (res ?s0)) - 1"
    "res (step4 ?cap ?s0) = (dropped k (res ?s0))\<lparr>complete := Some False\<rparr>"
    "size_bytes (step4 ?cap ?s0) = jsonSizeBytes (dropped k (res ?s0))"
    "warned (step4 ?cap ?s0) = warned ?s0 @ [trimWarning]"
    by blast
  have r0: "res ?s0 = noHits" by (simp add: startTrimming_def)
  note k3 = k [unfolded r0]
  from k3(1) have k0: "k = 0" by (simp add: bs)
  have "res (step4 ?cap ?s0) = noHits\<lparr>complete := Some False\<rparr>"
    unfolding k3(2) k0 by simp
  moreover have "size_bytes (step4 ?cap ?s0) = 71765"
    unfolding k3(3) k0 by (simp add: overBudget_sizes)
  moreover have "warned (step4 ?cap ?s0) = [trimWarning]"
    unfolding k(4) by (simp add: startTrimming_def)
  ultimately show ?thesis unfolding T by blast
qed

subsection \<open>Claims about the mapper\<close>

text \<open>
  C1, as stated, fails for one concurrency option. \<^verbatim>\<open>Math.max(1, NaN)\<close> is \<^verbatim>\<open>NaN\<close>, so
  is \<^verbatim>\<open>Math.min(NaN, items.length)\<close>, and \<^verbatim>\<open>0 < NaN\<close> is false: with
  \<^verbatim>\<open>maxConcurrent: NaN\<close> and a non-empty input the loop that starts the initial batch
  does not run. The mapper is never called, no promise is outstanding, and the promise
  returned to the caller stays pending for ever.
\<close>

theorem nan_limit_never_settles:
  "is_async rejectsForSecond \<and>
   observed (mapWithConcurrency [10, 20] rejectsForSecond \<lparr>maxConcurrent = Some NaN, onProgress = None\<rparr> [])
     = Some (None, [], []) \<and>
   outstanding (mapWithConcurrency [10, 20] rejectsForSecond \<lparr>maxConcurrent = Some NaN, onProgress = None\<rparr> [])
     = Some 0 \<and>
   mapWithConcurrency [10, 20] rejectsForSecond \<lparr>maxConcurrent = Some NaN, onProgress = None\<rparr> [0] = None"
proof -
  have "is_async rejectsForSecond"
    by (simp add: is_async_def rejectsForSecond_def)
  moreover have
    "observed (mapWithConcurrency [10, 20] rejectsForSecond \<lparr>maxConcurrent = Some NaN, onProgress = None\<rparr> [])
       = Some (None, [], [])"
    "outstanding (mapWithConcurrency [10, 20] rejectsForSecond \<lparr>maxConcurrent = Some NaN, onProgress = None\<rparr> [])
       = Some 0"
    "mapWithConcurrency [10, 20] rejectsForSecond \<lparr>maxConcurrent = Some NaN, onProgress = None\<rparr> [0] = None"
    by code_simp+
  ultimately show ?thesis by blast
qed

text \<open>
  C1, amended. For an input of length \<open>N\<close>, a mapper that always returns a promise (an
  \<^verbatim>\<open>async\<close> function cannot throw before returning) and any concurrency option whose
  \<^verbatim>\<open>maxConcurrent\<close> is not \<^verbatim>\<open>NaN\<close> (absent, an integer, a fraction, an infinity) and
  whose \<^verbatim>\<open>onProgress\<close> callback, if there is one, does not throw, every order in which
  the promises settle leads to the same outcome: the call resolves exactly when all \<open>N\<close>
  promises have settled, it is never stuck before that, the array it resolves with has
  \<open>N\<close> entries, the entry at position \<open>i\<close> is the result of item \<open>i\<close> and carries
  \<open>index = i\<close>, and the mapper has been called once per item, with that item and its
  position. Settling the oldest outstanding promise \<open>N\<close> times is one such order, so
  the call does resolve.
\<close>

theorem mapWithConcurrency_ordered:
  assumes "is_async mapper"
    and "maxConcurrent options \<noteq> Some NaN"
    and "quiet options"
    and "mapWithConcurrency items mapper options sched = Some st"
  shows "(resolved st \<longleftrightarrow> length sched = length items) \<and>
         (\<not> resolved st \<longrightarrow> awaiting st \<noteq> []) \<and>
         (\<forall>arr. returned st = Some arr \<longrightarrow>
            length arr = length items \<and>
            (\<forall>i < length items. arr ! i = Some (expected mapper items i) \<and>
                                index (expected mapper items i) = i) \<and>
            mapperCalls st = map (\<lambda>i. (Some (items ! i), i)) [0..<length items]) \<and>
         (\<exists>st'. mapWithConcurrency items mapper options (replicate (length items) 0) = Some st' \<and>
                resolved st')"
proof -
  let ?m = "effectiveMax options"
  from mapWithConcurrency_inv [OF assms(1,3,2,4)]
  have inv: "pool_inv items mapper ?m st"
    and live: "awaiting st = [] \<longrightarrow> currentIndex st = length items"
    and len: "length (progressCalls st) = length sched" by simp_all
  have 1: "resolved st \<longleftrightarrow> length sched = length items"
    using resolved_iff [OF inv live] len by simp
  have 2: "\<not> resolved st \<longrightarrow> awaiting st \<noteq> []"
    using inv live by (auto simp: pool_inv_def)
  have 3: "\<forall>arr. returned st = Some arr \<longrightarrow>
            length arr = length items \<and>
            (\<forall>i < length items. arr ! i = Some (expected mapper items i) \<and>
                                index (expected mapper items i) = i) \<and>
            mapperCalls st = map (\<lambda>i. (Some (items ! i), i)) [0..<length items]"
  proof (intro allI impI)
    fix arr assume "returned st = Some arr"
    then have r: "resolved st" and arr: "arr = results st"
      by (auto simp: returned_def split: if_splits)
    have idx: "index (expected mapper items i) = i" for i
      by (simp add: expected_def taskResult_def split: settled.splits)
    show "length arr = length items \<and>
            (\<forall>i < length items. arr ! i = Some (expected mapper items i) \<and>
                                index (expected mapper items i) = i) \<and>
            mapperCalls st = map (\<lambda>i. (Some (items ! i), i)) [0..<length items]"
      unfolding arr using resolved_results [OF inv r] idx by simp
  qed
  obtain st' where st': "mapWithConcurrency items mapper options (replicate (length items) 0) = Some st'"
    using oldest_first_runs [OF assms(1,3,2) order_refl] by blast
  from mapWithConcurrency_inv [OF assms(1,3,2) st']
  have "resolved st'"
    using resolved_iff [of items mapper ?m st'] by simp
  with st' 1 2 3 show ?thesis by blast
qed

theorem mapWithConcurrency_ordered_witness:
  "is_async rejectsForSecond \<and>
   maxConcurrent \<lparr>maxConcurrent = Some (Num 2), onProgress = Some silentProgress\<rparr> \<noteq> Some NaN \<and>
   quiet \<lparr>maxConcurrent = Some (Num 2), onProgress = Some silentProgress\<rparr> \<and>
   observed (mapWithConcurrency [10, 20, 30] rejectsForSecond
               \<lparr>maxConcurrent = Some (Num 2), onProgress = Some silentProgress\<rparr> [1, 1, 0])
     = Some (Some [Some \<lparr>index = 0, success = True, data = Some 7, error = None\<rparr>,
                   Some \<lparr>index = 1, success = False, data = None, error = Some ''boom''\<rparr>,
                   Some \<lparr>index = 2, success = True, data = Some 9, error = None\<rparr>],
             [(Some 10, 0), (Some 20, 1), (Some 30, 2)],
             [(1, 3), (2, 3), (3, 3)]) \<and>
   outstanding (mapWithConcurrency [10, 20, 30] rejectsForSecond
               \<lparr>maxConcurrent = Some (Num 2), onProgress = Some silentProgress\<rparr> [1, 1, 0]) = Some 0"
proof -
  let ?o = "\<lparr>maxConcurrent = Some (Num 2), onProgress = Some silentProgress\<rparr>"
  let ?run = "mapWithConcurrency [10, 20, 30] rejectsForSecond ?o [1, 1, 0]"
  have a: "is_async rejectsForSecond" by (simp add: is_async_def rejectsForSecond_def)
  have n: "maxConcurrent ?o \<noteq> Some NaN" by simp
  have q: "quiet ?o" by (simp add: quiet_def silentProgress_def)
  have v: "observed ?run
        = Some (Some [Some \<lparr>index = 0, success = True, data = Some 7, error = None\<rparr>,
                      Some \<lparr>index = 1, success = False, data = None, error = Some ''boom''\<rparr>,
                      Some \<lparr>index = 2, success = True, data = Some 9, error = None\<rparr>],
                [(Some 10, 0), (Some 20, 1), (Some 30, 2)],
                [(1, 3), (2, 3), (3, 3)])"
    by code_simp
  then obtain st where st: "?run = Some st"
    by (auto simp: observed_def)
  from mapWithConcurrency_ordered [OF a n q st] have "resolved st" by simp
  with mapWithConcurrency_ordered [OF a n q st] have "awaiting st = []"
    using mapWithConcurrency_inv [OF a q n st] by (simp add: pool_inv_def)
  then have "outstanding ?run = Some 0" unfolding outstanding_def st by simp
  with a n q v show ?thesis by blast
qed

text \<open>
  The condition on the callback is needed: an exception thrown by \<^verbatim>\<open>onProgress\<close>
  leaves the \<^verbatim>\<open>finally\<close> block before \<^verbatim>\<open>checkComplete()\<close> and before the next task is
  started. With two items, a limit of 1 and a callback that throws, the first task ends,
  the second is never started and nothing is left to settle.
\<close>

lemma throwing_callback_stalls:
  "observed (mapWithConcurrency [10, 20] rejectsForSecond
               \<lparr>maxConcurrent = Some (Num 1), onProgress = Some throwingProgress\<rparr> [0])
     = Some (None, [(Some 10, 0)], [(1, 2)]) \<and>
   outstanding (mapWithConcurrency [10, 20] rejectsForSecond
               \<lparr>maxConcurrent = Some (Num 1), onProgress = Some throwingProgress\<rparr> [0]) = Some 0"
  by code_simp

text \<open>
  C2, as stated, fails for a limit that is not an integer: the tests
  \<^verbatim>\<open>i < initialBatch\<close> and \<^verbatim>\<open>activeCount < maxConcurrent\<close> let a task start as long as
  the count is below the limit, so a limit of 1.5 lets a second task start. With three
  items and \<^verbatim>\<open>maxConcurrent: 1.5\<close> two mapper promises are outstanding when the call
  returns, and \<open>max(1, 1.5) = 1.5 < 2\<close>.
\<close>

theorem fractional_limit_exceeded:
  "effectiveMax \<lparr>maxConcurrent = Some (Num (3 / 2)), onProgress = None\<rparr> = Num (3 / 2) \<and>
   outstanding (mapWithConcurrency [10, 20, 30] rejectsForSecond
                  \<lparr>maxConcurrent = Some (Num (3 / 2)), onProgress = None\<rparr> []) = Some 2 \<and>
   jsLess (effectiveMax \<lparr>maxConcurrent = Some (Num (3 / 2)), onProgress = None\<rparr>) (Num 2)"
  by code_simp

text \<open>
  C2, amended. For every input, every mapper (throwing or not), every callback, every
  finite limit \<open>C\<close> and every order of completion, the number of mapper promises
  outstanding equals \<^verbatim>\<open>activeCount\<close> and is at most \<open>max(1, C)\<close> rounded up to the next
  integer, and so is the high-water mark of \<^verbatim>\<open>activeCount\<close> taken at each call of the
  mapper (which counts the call being made). For an integer \<open>C\<close> the bound is
  \<open>max(1, C)\<close> itself, so a limit of zero or less behaves as 1.
\<close>

theorem concurrency_bound:
  assumes "mapWithConcurrency items mapper \<lparr>maxConcurrent = Some (Num c), onProgress = cb\<rparr> sched = Some st"
  shows "peakActive st \<le> \<lceil>max 1 c\<rceil> \<and> int (length (awaiting st)) \<le> \<lceil>max 1 c\<rceil> \<and>
         activeCount st = int (length (awaiting st)) \<and>
         (\<forall>z. c = of_int z \<longrightarrow> peakActive st \<le> max 1 z \<and> int (length (awaiting st)) \<le> max 1 z)"
proof -
  let ?o = "\<lparr>maxConcurrent = Some (Num c), onProgress = cb\<rparr>"
  have m: "effectiveMax ?o = Num (max 1 c)"
    by (simp add: effectiveMax_def mathMax_def max_def)
  from runSchedule_balanced [OF startPool_balanced assms [unfolded mapWithConcurrency_def]]
  have b: "activeCount st = int (length (awaiting st))" "admits (Num (max 1 c)) (activeCount st)"
    "admits (Num (max 1 c)) (peakActive st)"
    unfolding balanced_def m by blast+
  have le: "a \<le> \<lceil>max 1 c\<rceil>" if "admits (Num (max 1 c)) a" for a
  proof (cases "a \<le> 0")
    case True
    have "(1 :: rat) \<le> max 1 c" by simp
    then have "\<lceil>1 :: rat\<rceil> \<le> \<lceil>max 1 c\<rceil>" by (rule ceiling_mono)
    then have "1 \<le> \<lceil>max 1 c\<rceil>" by (simp only: ceiling_one)
    with True show ?thesis by linarith
  next
    case False
    with that have "of_int (a - 1) < max 1 c" by (simp add: admits_def)
    then have "a - 1 < \<lceil>max 1 c\<rceil>" by (simp only: less_ceiling_iff)
    then show ?thesis by simp
  qed
  have int_case: "\<lceil>max 1 c\<rceil> = max 1 z" if "c = of_int z" for z
  proof -
    have "max 1 c = of_int (max 1 z)" using that by (simp add: max_def)
    then show ?thesis by (simp only: ceiling_of_int)
  qed
  from le [OF b(2)] le [OF b(3)] b(1) int_case show ?thesis by auto
qed

theorem concurrency_bound_witness:
  "outstanding (mapWithConcurrency [10, 20, 30] throwsForSecond
                  \<lparr>maxConcurrent = Some (Num (- 2)), onProgress = None\<rparr> [0]) = Some 1 \<and>
   map_option peakActive (mapWithConcurrency [10, 20, 30] throwsForSecond
                  \<lparr>maxConcurrent = Some (Num (- 2)), onProgress = None\<rparr> [0]) = Some 1 \<and>
   map_option currentIndex (mapWithConcurrency [10, 20, 30] throwsForSecond
                  \<lparr>maxConcurrent = Some (Num (- 2)), onProgress = None\<rparr> [0]) = Some 3 \<and>
   max 1 (- 2) = (1 :: int)"
proof -
  let ?run = "mapWithConcurrency [10, 20, 30] throwsForSecond
                  \<lparr>maxConcurrent = Some (Num (- 2)), onProgress = None\<rparr> [0]"
  have c: "map_option currentIndex ?run = Some 3"
    by code_simp
  then obtain st where st: "?run = Some st" and more: "currentIndex st = 3"
    by auto
  have z: "(- 2 :: rat) = of_int (- 2)" by simp
  from concurrency_bound [OF st] z
  have b: "peakActive st \<le> max 1 (- 2)" "int (length (awaiting st)) \<le> max 1 (- 2)"
    "activeCount st = int (length (awaiting st))"
    by blast+
  have "awaiting st \<noteq> []"
  proof
    assume "awaiting st = []"
    have "map_option (\<lambda>st. awaiting st = []) ?run = Some False" by code_simp
    with st \<open>awaiting st = []\<close> show False by simp
  qed
  then have l: "length (awaiting st) = 1" using b(2) by (cases "awaiting st") auto
  have "map_option (\<lambda>st. 1 \<le> peakActive st) ?run = Some True" by code_simp
  with st b(1) have "peakActive st = 1" by simp
  with l more show ?thesis unfolding outstanding_def st by simp
qed

text \<open>
  C9. A mapper whose promise rejects and a mapper that throws before returning are not
  treated alike. The loop that starts the initial batch takes \<^verbatim>\<open>currentIndex++\<close>
  without comparing it with the length of the input, which the \<^verbatim>\<open>finally\<close> block
  does. When a task of the initial batch throws at once, its \<^verbatim>\<open>finally\<close> block has
  already started the next task, and the loop then starts tasks past the end of the input.
  With two items, the default limit and a mapper that throws for the first item, the
  mapper is called a third time with \<^verbatim>\<open>undefined\<close> and position 2, and the array has
  three entries; with a mapper that rejects for the first item it has two.
\<close>

theorem sync_throw_extra_entry:
  "observed (mapWithConcurrency [10, 20] throwsForFirst \<lparr>maxConcurrent = None, onProgress = None\<rparr> [0, 0])
   = Some (Some [Some \<lparr>index = 0, success = False, data = None, error = Some ''boom''\<rparr>,
                 Some \<lparr>index = 1, success = True, data = Some 8, error = None\<rparr>,
                 Some \<lparr>index = 2, success = True, data = Some 9, error = None\<rparr>],
           [(Some 10, 0), (Some 20, 1), (None, 2)],
           [(1, 2), (2, 2), (3, 2)]) \<and>
   observed (mapWithConcurrency [10, 20] rejectsForFirst \<lparr>maxConcurrent = None, onProgress = None\<rparr> [0, 0])
   = Some (Some [Some \<lparr>index = 0, success = False, data = None, error = Some ''boom''\<rparr>,
                 Some \<lparr>index = 1, success = True, data = Some 8, error = None\<rparr>],
           [(Some 10, 0), (Some 20, 1)],
           [(1, 2), (2, 2)])"
  by code_simp


subsection \<open>Claims about the snippet fetcher\<close>

text \<open>
  C3, as stated, fails for timeouts. The \<^verbatim>\<open>catch\<close> block rethrows every error named
  \<^verbatim>\<open>AbortError\<close> before it looks at the attempt budget, and the only signal the remote
  call is given is the one of the per-attempt timer. An attempt that runs into its timer
  therefore ends the request: with a budget of three retries, a first attempt that times
  out is the only attempt.
\<close>

theorem timeout_not_retried:
  "timesOutOnce 0 0 callA = TimesOut \<and> (0::int) < retryBudget (retrying 3) \<and>
   fetchEvents timesOutOnce [requestA] (retrying 3) 0 = [Attempt 0 callA]"
  by code_simp

text \<open>
  C3, amended. For the request at any position: if the first \<open>n\<close> attempts fail with
  errors not named \<^verbatim>\<open>AbortError\<close> and \<open>n\<close> is within the budget
  (\<open>n \<le> retryAttempts\<close>), then each of them is followed by a delay of
  \<open>100 * 2^a\<close> milliseconds (attempt 0: 100, attempt 1: 200, ...) and attempt \<open>n\<close> is
  made. Attempt \<open>n\<close> is the last one if it answers, if it fails with an error named
  \<^verbatim>\<open>AbortError\<close> (which is what a timeout gives), or if \<open>n = retryAttempts\<close>. The
  caller's signal plays no part.
\<close>

theorem retry_with_backoff:
  assumes "\<forall>a<n. \<exists>e. restGetFileSlice service pos a (callFor (timeoutOf options) (requests ! pos)) = Inl e \<and>
                     err_name (asError e) \<noteq> js ''AbortError''"
    and "int n \<le> retryBudget options"
  shows "(\<exists>rest. fetchEvents service requests options pos =
            retriesBefore (callFor (timeoutOf options) (requests ! pos)) n @
            Attempt n (callFor (timeoutOf options) (requests ! pos)) # rest) \<and>
         (\<forall>e. restGetFileSlice service pos n (callFor (timeoutOf options) (requests ! pos)) = Inl e \<and>
              (err_name (asError e) = js ''AbortError'' \<or> int n = retryBudget options) \<longrightarrow>
            fetchEvents service requests options pos =
              retriesBefore (callFor (timeoutOf options) (requests ! pos)) n @
              [Attempt n (callFor (timeoutOf options) (requests ! pos))]) \<and>
         (\<forall>r. restGetFileSlice service pos n (callFor (timeoutOf options) (requests ! pos)) = Inr r \<longrightarrow>
            fetchEvents service requests options pos =
              retriesBefore (callFor (timeoutOf options) (requests ! pos)) n @
              [Attempt n (callFor (timeoutOf options) (requests ! pos))])"
proof -
  let ?t = "timeoutOf options" and ?r = "retryBudget options" and ?q = "requests ! pos"
  from attemptLoop_retries [OF assms]
  obtain prev where eq: "attemptLoop service ?t ?r pos ?q 0 None [] =
       attemptLoop service ?t ?r pos ?q n prev (retriesBefore (callFor ?t ?q) n)"
    by blast
  show ?thesis
    unfolding fetchEvents_def eq
    using attemptLoop_attempts [OF assms(2), of service ?t pos ?q prev "retriesBefore (callFor ?t ?q) n"]
      attemptLoop_end [OF assms(2), of service pos ?t ?q _ prev "retriesBefore (callFor ?t ?q) n"]
    by auto
qed

theorem retry_with_backoff_witness:
  "fetchEvents failsTwice [requestA] (retrying 3) 0 =
     [Attempt 0 callA, Backoff 100, Attempt 1 callA, Backoff 200, Attempt 2 callA]"
proof -
  have call: "callFor (timeoutOf (retrying 3)) ([requestA] ! 0) = callA"
    by code_simp
  have ne: "err_name (asError (NotAnError (js ''[object Object]''))) \<noteq> js ''AbortError''"
    by code_simp
  have h1: "\<forall>a<2. \<exists>e. restGetFileSlice failsTwice 0 a (callFor (timeoutOf (retrying 3)) ([requestA] ! 0)) = Inl e \<and>
                     err_name (asError e) \<noteq> js ''AbortError''"
    using ne by (simp add: restGetFileSlice_def failsTwice_def)
  have h2: "int 2 \<le> retryBudget (retrying 3)"
    by (simp add: retryBudget_def retrying_def)
  have r: "restGetFileSlice failsTwice 0 2 callA = Inr sliceA"
    by (simp add: restGetFileSlice_def failsTwice_def)
  from retry_with_backoff [OF h1 h2] r
  have "fetchEvents failsTwice [requestA] (retrying 3) 0 = retriesBefore callA 2 @ [Attempt 2 callA]"
    unfolding call by blast
  then show ?thesis by (simp add: retriesBefore_def numeral_2_eq_2)
qed

text \<open>
  C4. The caller's signal is never consulted: \<^verbatim>\<open>fetchSnippetsInParallel\<close> destructures
  it as \<^verbatim>\<open>signal: _signal\<close> and does not read it, where the claim has it checked
  before each attempt. With a signal that is already aborted when the call is made, one
  retry allowed and a remote call that fails once, both attempts and the delay between
  them take place and the position gets the fetched content. The result still has an
  entry for the position.
\<close>

theorem signal_ignored:
  "aborted (the (signal (retryingAborted 1))) \<and>
   fetchEvents failsOnce [requestA] (retryingAborted 1) 0 = [Attempt 0 callA, Backoff 100, Attempt 1 callA] \<and>
   snippetAt 0 (fetchSnippetsInParallel quietLogger failsOnce [requestA] (retryingAborted 1) [0]) = Some (Some snippetA)"
  by code_simp




text \<open>
  Outside these conditions the call need not resolve. When the logger cannot write, the
  first statement of the function rejects the call before any request is made; with
  \<^verbatim>\<open>maxConcurrent: NaN\<close> the mapper starts no task and the call stays pending.
\<close>

lemma logger_failure_rejects:
  "fetchSnippetsInParallel brokenLogger failsOnce [requestA] (retrying 1) []
     = Some (Rejected (ErrorObject (js ''Error'') (js ''ENOENT: no such file or directory'')))"
  by (simp add: fetchSnippetsInParallel_def brokenLogger_def)

lemma nan_limit_fetch_pending:
  "fetchSnippetsInParallel quietLogger failsOnce [requestA] (unlimited NaN) [] = None \<and>
   fetchSnippetsInParallel quietLogger failsOnce [requestA] (unlimited NaN) [0] = None"
  by code_simp

subsection \<open>Claims about the payload trimming\<close>

text \<open>
  C6. The trimming code is the four steps applied in this order to the result and its
  measured size, with the budget \<^verbatim>\<open>CAP_BYTES\<close> and the character caps 600 and 300; the
  facts below hold for any budget and caps. A result whose size is within the budget is
  returned as it is, and each step is left out (changes nothing) when the size measured
  before it is within the budget; each step leaves the variable \<^verbatim>\<open>size\<close> equal to the
  size of the result. Step 1, when the size is over the budget and the second block is a
  text block with text \<open>t\<close>, leaves there the text \<open>t\<close> cut \<open>k\<close> times to 90% of its
  length, where \<open>k\<close> is the first number of cuts after which the text is empty or the
  size is within the budget. Step 2, when the size is over the budget, caps the resource
  texts of the blocks before a position \<open>j1\<close> at the upper cap and then those before a
  position \<open>j2\<close> at the floor cap, each position being the first at which the size is
  within the budget, or the end of the content.
\<close>

theorem trim_steps_in_order:
  assumes "consistent st"
  shows "trimPayload n r = trimWith CAP_BYTES SHRUNK_SNIPPET_CHAR_CAP MIN_SNIPPET_CHAR_FLOOR n r \<and>
         trimWith cap shrunk floorCap n r =
           step4 cap (step3 cap n (step2 cap shrunk floorCap (step1 cap (startTrimming r)))) \<and>
         consistent (startTrimming r) \<and>
         (jsonSizeBytes r \<le> cap \<longrightarrow> trimWith cap shrunk floorCap n r = startTrimming r) \<and>
         (size_bytes st \<le> cap \<longrightarrow>
            step1 cap st = st \<and> step2 cap shrunk floorCap st = st \<and> step3 cap n st = st \<and> step4 cap st = st) \<and>
         consistent (step1 cap st) \<and> consistent (step2 cap shrunk floorCap st) \<and> consistent (step3 cap n st) \<and>
         (cap < size_bytes st \<and> 1 < length (blocks (res st)) \<and> blocks (res st) ! 1 = TextBlock t \<longrightarrow>
           (\<exists>k. res (step1 cap st) = promptWith (res st) ((cut90 ^^ k) t) \<and>
                ((cut90 ^^ k) t = [] \<or> jsonSizeBytes (res (step1 cap st)) \<le> cap) \<and>
                (\<forall>j<k. (cut90 ^^ j) t \<noteq> [] \<and> cap < jsonSizeBytes (promptWith (res st) ((cut90 ^^ j) t))))) \<and>
         (cap < size_bytes st \<longrightarrow>
           (\<exists>j1 j2 r1. j1 \<le> length (blocks (res st)) \<and> j2 \<le> length (blocks (res st)) \<and>
              r1 = (res st)\<lparr>blocks := inRange (capBlock shrunk) 0 j1 (blocks (res st))\<rparr> \<and>
              res (step2 cap shrunk floorCap st) = r1\<lparr>blocks := inRange (capBlock floorCap) 0 j2 (blocks r1)\<rparr> \<and>
              (j1 = length (blocks (res st)) \<or> jsonSizeBytes r1 \<le> cap) \<and>
              (\<forall>j'<j1. cap < jsonSizeBytes ((res st)\<lparr>blocks := inRange (capBlock shrunk) 0 j' (blocks (res st))\<rparr>)) \<and>
              (j2 = length (blocks (res st)) \<or> jsonSizeBytes (res (step2 cap shrunk floorCap st)) \<le> cap) \<and>
              (\<forall>j'<j2. cap < jsonSizeBytes (r1\<lparr>blocks := inRange (capBlock floorCap) 0 j' (blocks r1)\<rparr>))))"
proof -
  have a: "trimWith cap shrunk floorCap n r =
           step4 cap (step3 cap n (step2 cap shrunk floorCap (step1 cap (startTrimming r))))"
    by (simp add: trimWith_def startTrimming_def)
  have skip: "step1 cap s = s \<and> step2 cap shrunk floorCap s = s \<and> step3 cap n s = s \<and> step4 cap s = s"
    if "size_bytes s \<le> cap" for s
    using that by (simp add: step1_def step2_def step3_def step4_def)
  have b: "jsonSizeBytes r \<le> cap \<longrightarrow> trimWith cap shrunk floorCap n r = startTrimming r"
  proof
    assume "jsonSizeBytes r \<le> cap"
    then have "size_bytes (startTrimming r) \<le> cap" by (simp add: startTrimming_def)
    from skip [OF this] show "trimWith cap shrunk floorCap n r = startTrimming r"
      unfolding a by simp
  qed
  from a b skip [of st] step1_char [OF assms, of cap t] step2_char [OF assms, of cap shrunk floorCap]
    step3_char [OF assms, of cap n]
  show ?thesis
    by (simp only: consistent_start trimPayload_def simp_thms) blast
qed

theorem trim_steps_in_order_witness:
  "consistent (startTrimming tinyResult) \<and>
   600 < size_bytes (startTrimming tinyResult) \<and>
   blocks (res (startTrimming tinyResult)) ! 1 =
     TextBlock (js ''[r] a.ts#L1-L2 const a = 1; [r] b.ts#L3-L4 export {}'') \<and>
   (\<exists>k. res (step1 600 (startTrimming tinyResult)) =
          promptWith (res (startTrimming tinyResult))
            ((cut90 ^^ k) (js ''[r] a.ts#L1-L2 const a = 1; [r] b.ts#L3-L4 export {}'')) \<and>
        ((cut90 ^^ k) (js ''[r] a.ts#L1-L2 const a = 1; [r] b.ts#L3-L4 export {}'') = [] \<or>
         jsonSizeBytes (res (step1 600 (startTrimming tinyResult))) \<le> 600)) \<and>
   trimWith 700 12 5 2 tinyResult = startTrimming tinyResult"
proof -
  let ?st = "startTrimming tinyResult"
  let ?t = "js ''[r] a.ts#L1-L2 const a = 1; [r] b.ts#L3-L4 export {}''"
  have c: "consistent ?st" by (simp add: consistent_def startTrimming_def)
  have h: "600 < size_bytes ?st" "jsonSizeBytes tinyResult \<le> 700"
    by (simp_all add: startTrimming_def tinyResult_sizes)
  have b: "1 < length (blocks (res ?st))" "blocks (res ?st) ! 1 = TextBlock ?t"
    by (simp_all add: startTrimming_def tinyResult_def)
  from trim_steps_in_order [OF c, where cap = 600 and t = ?t] h(1) b
  have "\<exists>k. res (step1 600 ?st) = promptWith (res ?st) ((cut90 ^^ k) ?t) \<and>
        ((cut90 ^^ k) ?t = [] \<or> jsonSizeBytes (res (step1 600 ?st)) \<le> 600)"
    by blast
  moreover from trim_steps_in_order [OF c, where cap = 700 and shrunk = 12 and floorCap = 5 and n = 2 and r = tinyResult] h(2)
  have "trimWith 700 12 5 2 tinyResult = ?st" by blast
  ultimately show ?thesis using c h(1) b(2) by blast
qed

text \<open>
  C7. Step 3 never changes the number of blocks: when the size is over the budget it
  empties the resource texts at the positions \<open>j + 2, ..., n + 1\<close> of the hits
  \<open>j, ..., n - 1\<close>, from the last hit backward, \<open>j\<close> being the first at which the size is
  within the budget, or 0. Step 4, when the size is over the budget, removes the last
  \<open>k\<close> blocks and the last \<open>k\<close> hit records, \<open>k\<close> being the first number at which one
  block is left or the size is within the budget, then sets \<^verbatim>\<open>complete\<close> to false and
  writes the warning. For the whole trimming: the blocks are the first blocks of the
  input, with other texts, the hit records are the first of the input, the same number
  \<open>k\<close> of each being removed, and when a block was dropped the flag is false and the
  warning was written. When block \<open>2 + i\<close> belongs to hit \<open>i\<close> before the trimming, every
  hit record left still has its block at position \<open>2 + i\<close>, with the same address and
  type, and is the record it was.
\<close>

theorem empties_then_drops_in_lockstep:
  assumes "consistent st"
  shows "length (blocks (res (step3 cap n st))) = length (blocks (res st)) \<and>
         (cap < size_bytes st \<longrightarrow>
           (\<exists>j\<le>n. res (step3 cap n st) =
                     (res st)\<lparr>blocks := inRange emptyBlock (j + 2) (n + 2) (blocks (res st))\<rparr> \<and>
                (j = 0 \<or> jsonSizeBytes (res (step3 cap n st)) \<le> cap) \<and>
                (\<forall>j'. j < j' \<and> j' \<le> n \<longrightarrow>
                   cap < jsonSizeBytes ((res st)\<lparr>blocks := inRange emptyBlock (j' + 2) (n + 2) (blocks (res st))\<rparr>)))) \<and>
         (cap < size_bytes st \<longrightarrow>
           (\<exists>k \<le> length (blocks (res st)) - 1.
              res (step4 cap st) = (dropped k (res st))\<lparr>complete := Some False\<rparr> \<and>
              warned (step4 cap st) = warned st @ [trimWarning] \<and>
              (length (blocks (res st)) - k \<le> 1 \<or> jsonSizeBytes (dropped k (res st)) \<le> cap) \<and>
              (\<forall>k'<k. 1 < length (blocks (res st)) - k' \<and> cap < jsonSizeBytes (dropped k' (res st))))) \<and>
         (\<exists>k bs. k \<le> length (blocks r) - 1 \<and> map shape bs = map shape (blocks r) \<and>
            blocks (res (trimWith cap shrunk floorCap n r)) = take (length (blocks r) - k) bs \<and>
            hits (res (trimWith cap shrunk floorCap n r)) = take (length (hits r) - k) (hits r) \<and>
            (0 < k \<longrightarrow> complete (res (trimWith cap shrunk floorCap n r)) = Some False \<and>
                        warned (trimWith cap shrunk floorCap n r) = [trimWarning])) \<and>
         (length (blocks r) = 2 + length (hits r) \<longrightarrow>
            (\<forall>i < length (hits (res (trimWith cap shrunk floorCap n r))).
               2 + i < length (blocks (res (trimWith cap shrunk floorCap n r))) \<and>
               shape (blocks (res (trimWith cap shrunk floorCap n r)) ! (2 + i)) = shape (blocks r ! (2 + i)) \<and>
               hits (res (trimWith cap shrunk floorCap n r)) ! i = hits r ! i) \<and>
            length (blocks (res (trimWith cap shrunk floorCap n r)))
              \<le> 2 + length (hits (res (trimWith cap shrunk floorCap n r))))"
proof -
  let ?T = "trimWith cap shrunk floorCap n r"
  let ?s0 = "startTrimming r"
  let ?s1 = "step1 cap ?s0"
  let ?s2 = "step2 cap shrunk floorCap ?s1"
  let ?s3 = "step3 cap n ?s2"
  have T: "?T = step4 cap ?s3" by (simp add: trimWith_def startTrimming_def)
  have c1: "consistent ?s1" "warned ?s1 = warned ?s0" "retexted (res ?s0) (res ?s1)"
    using step1_char [OF consistent_start, of cap r] by blast+
  have c2: "consistent ?s2" "warned ?s2 = warned ?s1" "retexted (res ?s1) (res ?s2)"
    using step2_char [OF c1(1), of cap shrunk floorCap] by blast+
  have c3: "consistent ?s3" "warned ?s3 = warned ?s2" "retexted (res ?s2) (res ?s3)"
    using step3_char [OF c2(1), of cap n] by blast+
  have w3: "warned ?s3 = []" using c1(2) c2(2) c3(2) by (simp add: startTrimming_def)
  have "retexted r (res ?s3)"
    using retexted_trans [OF retexted_trans [OF c1(3) c2(3)] c3(3)] by (simp add: startTrimming_def)
  then obtain bs where bs: "res ?s3 = r\<lparr>blocks := bs\<rparr>" "map shape bs = map shape (blocks r)"
    unfolding retexted_def by blast
  have lbs: "length bs = length (blocks r)" using bs(2) by (metis length_map)
  have whole: "\<exists>k bs. k \<le> length (blocks r) - 1 \<and> map shape bs = map shape (blocks r) \<and>
            blocks (res ?T) = take (length (blocks r) - k) bs \<and>
            hits (res ?T) = take (length (hits r) - k) (hits r) \<and>
            (0 < k \<longrightarrow> complete (res ?T) = Some False \<and> warned ?T = [trimWarning])"
  proof (cases "cap < size_bytes ?s3")
    case False
    then have "?T = ?s3" unfolding T by (simp add: step4_def)
    then show ?thesis using bs by (intro exI [of _ 0] exI [of _ bs]) (simp add: lbs)
  next
    case True
    from step4_char [OF c3(1), of cap] True
    obtain k where k: "k \<le> length (blocks (res ?s3)) - 1"
      "res (step4 cap ?s3) = (dropped k (res ?s3))\<lparr>complete := Some False\<rparr>"
      "warned (step4 cap ?s3) = warned ?s3 @ [trimWarning]"
      by blast
    show ?thesis
      using k bs w3 unfolding T
      by (intro exI [of _ k] exI [of _ bs]) (simp add: lbs dropped_def)
  qed
  have pairing: "(\<forall>i < length (hits (res ?T)).
               2 + i < length (blocks (res ?T)) \<and>
               shape (blocks (res ?T) ! (2 + i)) = shape (blocks r ! (2 + i)) \<and>
               hits (res ?T) ! i = hits r ! i) \<and>
            length (blocks (res ?T)) \<le> 2 + length (hits (res ?T))"
    if len: "length (blocks r) = 2 + length (hits r)"
  proof -
    from whole obtain k cs where k: "k \<le> length (blocks r) - 1" "map shape cs = map shape (blocks r)"
      "blocks (res ?T) = take (length (blocks r) - k) cs"
      "hits (res ?T) = take (length (hits r) - k) (hits r)"
      by blast
    have lcs: "length cs = length (blocks r)" using k(2) by (metis length_map)
    have "2 + i < length (blocks (res ?T)) \<and>
               shape (blocks (res ?T) ! (2 + i)) = shape (blocks r ! (2 + i)) \<and>
               hits (res ?T) ! i = hits r ! i" if i: "i < length (hits (res ?T))" for i
    proof -
      from i have i': "i < length (hits r) - k" by (simp add: k(4))
      then have in_range: "2 + i < length (blocks r) - k" using len by simp
      then have "2 + i < length cs" using lcs by simp
      then have "shape (cs ! (2 + i)) = shape (blocks r ! (2 + i))"
        using k(2) by (metis nth_map lcs)
      with in_range i' show ?thesis by (simp add: k(3,4) lcs)
    qed
    moreover have "length (blocks (res ?T)) \<le> 2 + length (hits (res ?T))"
      using k(1) len by (simp add: k(3,4) lcs)
    ultimately show ?thesis by blast
  qed
  from step3_char [OF assms, of cap n] step4_char [OF assms, of cap] whole pairing
  show ?thesis by blast
qed

theorem empties_then_drops_in_lockstep_witness:
  "consistent (startTrimming overBudget) \<and>
   length (blocks overBudget) = 2 + length (hits overBudget) \<and>
   length (hits (res (trimPayload 2 overBudget))) = 1 \<and>
   length (blocks (res (trimPayload 2 overBudget))) = 3 \<and>
   shape (blocks (res (trimPayload 2 overBudget)) ! 2) = shape (blocks overBudget ! 2) \<and>
   hits (res (trimPayload 2 overBudget)) ! 0 = hits overBudget ! 0 \<and>
   complete (res (trimPayload 2 overBudget)) = Some False"
proof -
  let ?T = "trimWith CAP_BYTES SHRUNK_SNIPPET_CHAR_CAP MIN_SNIPPET_CHAR_FLOOR 2 overBudget"
  have T: "trimPayload 2 overBudget = ?T" by (simp add: trimPayload_def)
  have c: "consistent (startTrimming overBudget)" by (simp add: consistent_def startTrimming_def)
  have h: "length (blocks overBudget) = 2 + length (hits overBudget)"
    by (simp add: overBudget_def tinyResult_def)
  have l: "length (hits (res ?T)) = 1" "length (blocks (res ?T)) = 3"
    "complete (res ?T) = Some False"
    using overBudget_once unfolding T by (simp_all add: trimmedOnce_def)
  from empties_then_drops_in_lockstep [OF c, where cap = CAP_BYTES and shrunk = SHRUNK_SNIPPET_CHAR_CAP
      and floorCap = MIN_SNIPPET_CHAR_FLOOR and n = 2 and r = overBudget] h
  have "\<forall>i < length (hits (res ?T)).
               2 + i < length (blocks (res ?T)) \<and>
               shape (blocks (res ?T) ! (2 + i)) = shape (blocks overBudget ! (2 + i)) \<and>
               hits (res ?T) ! i = hits overBudget ! i"
    by blast
  from this [rule_format, of 0] l(1)
  have "shape (blocks (res ?T) ! 2) = shape (blocks overBudget ! 2)"
    "hits (res ?T) ! 0 = hits overBudget ! 0"
    by simp_all
  with c h l show ?thesis unfolding T by blast
qed

text \<open>
  C8. Neither half of the claim holds for the code. Step 4 assigns
  \<^verbatim>\<open>complete: false\<close> after its last measurement of the size. For a result with two
  hits and an upstream cursor of 71295 letters, the drop loop stops when the size is
  71680 bytes, which is the budget; the flag, which was \<^verbatim>\<open>true\<close>, then makes it 71681
  bytes. The result of the first run is over the budget with three blocks left, and a
  second run drops another result block and its hit record and changes the size.
  For a result without hits that is over the budget, step 4 is applied, drops nothing,
  and the size grows by one byte.
\<close>

theorem trim_not_idempotent:
  "CAP_BYTES = 71680 \<and> jsonSizeBytes overBudget = 71947 \<and>
   res (trimPayload 2 overBudget) = trimmedOnce \<and>
   size_bytes (trimPayload 2 overBudget) = 71680 \<and>
   jsonSizeBytes trimmedOnce = 71681 \<and>
   length (blocks trimmedOnce) = 3 \<and> length (hits trimmedOnce) = 1 \<and>
   res (trimPayload 2 trimmedOnce) = trimmedTwice \<and>
   jsonSizeBytes trimmedTwice = 71501 \<and>
   length (blocks trimmedTwice) = 2 \<and> length (hits trimmedTwice) = 0 \<and>
   jsonSizeBytes noHits = 71765 \<and>
   res (trimPayload 0 noHits) = noHits\<lparr>complete := Some False\<rparr> \<and>
   jsonSizeBytes (noHits\<lparr>complete := Some False\<rparr>) = 71766"
proof -
  have l: "length (blocks trimmedOnce) = 3" "length (hits trimmedOnce) = 1"
    "length (blocks trimmedTwice) = 2" "length (hits trimmedTwice) = 0"
    by (simp_all add: trimmedOnce_def trimmedTwice_def)
  have c: "CAP_BYTES = 71680" by (simp add: CAP_BYTES_def)
  from overBudget_once trimmedOnce_again noHits_trimmed overBudget_sizes l c
  show ?thesis by blast
qed

text \<open>
  C10. The first block, a text block, is never removed and keeps its text, whatever the
  budget. When the budget is below the size of the result reduced to that block and no
  hit records, the drop loop removes every other block, the prompt-ready text block
  included, and stops with one block left; the completeness flag is false and the
  warning is written. As many hit records are removed from the end as blocks, as far as
  there are any: with at most as many hit records as removed blocks none is left, the
  further calls of \<^verbatim>\<open>pop\<close> having found the array empty.
\<close>

theorem tiny_budget_keeps_summary_only:
  assumes "blocks r = TextBlock s # rest"
  shows "(\<exists>xs. blocks (res (trimWith cap shrunk floorCap n r)) = TextBlock s # xs) \<and>
         (cap < jsonSizeBytes (r\<lparr>blocks := [TextBlock s], hits := []\<rparr>) \<longrightarrow>
            blocks (res (trimWith cap shrunk floorCap n r)) = [TextBlock s] \<and>
            hits (res (trimWith cap shrunk floorCap n r)) = take (length (hits r) - length rest) (hits r) \<and>
            (length (hits r) \<le> length rest \<longrightarrow> hits (res (trimWith cap shrunk floorCap n r)) = []) \<and>
            complete (res (trimWith cap shrunk floorCap n r)) = Some False \<and>
            warned (trimWith cap shrunk floorCap n r) = [trimWarning])"
proof -
  let ?T = "trimWith cap shrunk floorCap n r"
  let ?s0 = "startTrimming r"
  let ?s1 = "step1 cap ?s0"
  let ?s2 = "step2 cap shrunk floorCap ?s1"
  let ?s3 = "step3 cap n ?s2"
  have T: "?T = step4 cap ?s3" by (simp add: trimWith_def startTrimming_def)
  have c1: "consistent ?s1" "warned ?s1 = warned ?s0" "retexted (res ?s0) (res ?s1)"
    using step1_char [OF consistent_start, of cap r] by blast+
  have c2: "consistent ?s2" "warned ?s2 = warned ?s1" "retexted (res ?s1) (res ?s2)"
    using step2_char [OF c1(1), of cap shrunk floorCap] by blast+
  have c3: "consistent ?s3" "warned ?s3 = warned ?s2" "retexted (res ?s2) (res ?s3)"
    using step3_char [OF c2(1), of cap n] by blast+
  have w3: "warned ?s3 = []" using c1(2) c2(2) c3(2) by (simp add: startTrimming_def)
  have "retexted r (res ?s3)"
    using retexted_trans [OF retexted_trans [OF c1(3) c2(3)] c3(3)] by (simp add: startTrimming_def)
  then obtain bs where bs: "res ?s3 = r\<lparr>blocks := bs\<rparr>" "map shape bs = map shape (blocks r)"
    "isResource (blocks r ! 0) \<or> bs ! 0 = blocks r ! 0"
    unfolding retexted_def by blast
  have lbs: "length bs = Suc (length rest)" using bs(2) assms by (metis length_map length_Cons)
  then obtain xs where xs: "bs = TextBlock s # xs" "length xs = length rest"
    using bs(3) assms by (cases bs) auto
  have first: "\<exists>ys. blocks (res ?T) = TextBlock s # ys"
  proof (cases "cap < size_bytes ?s3")
    case False
    then have "?T = ?s3" unfolding T by (simp add: step4_def)
    then show ?thesis by (simp add: bs(1) xs(1))
  next
    case True
    from step4_char [OF c3(1), of cap] True
    obtain k where k: "k \<le> length (blocks (res ?s3)) - 1"
      "res (step4 cap ?s3) = (dropped k (res ?s3))\<lparr>complete := Some False\<rparr>"
      by blast
    from k(1) have "k \<le> length xs" by (simp add: bs(1) xs(1))
    then have "blocks (res ?T) = TextBlock s # take (length xs - k) xs"
      unfolding T k(2) by (simp add: dropped_def bs(1) xs(1) Suc_diff_le)
    then show ?thesis by blast
  qed
  have tiny: "blocks (res ?T) = [TextBlock s] \<and>
            hits (res ?T) = take (length (hits r) - length rest) (hits r) \<and>
            (length (hits r) \<le> length rest \<longrightarrow> hits (res ?T) = []) \<and>
            complete (res ?T) = Some False \<and> warned ?T = [trimWarning]"
    if small: "cap < jsonSizeBytes (r\<lparr>blocks := [TextBlock s], hits := []\<rparr>)"
  proof -
    have big: "cap < jsonSizeBytes (dropped k (res ?s3))" if "k \<le> length rest" for k
    proof -
      have "dropped k (res ?s3) = r\<lparr>blocks := TextBlock s # take (length xs - k) xs,
                                     hits := take (length (hits r) - k) (hits r)\<rparr>"
        using that by (simp add: dropped_def bs(1) xs Suc_diff_le)
      then show ?thesis
        using small size_minimal [where r = r and b = "TextBlock s" and xs = "take (length xs - k) xs"
            and hs = "take (length (hits r) - k) (hits r)"]
        by simp
    qed
    have "cap < size_bytes ?s3"
      using big [of 0] c3(1) by (simp add: consistent_def)
    from step4_char [OF c3(1), of cap] this
    obtain k where k: "k \<le> length (blocks (res ?s3)) - 1"
        "res (step4 cap ?s3) = (dropped k (res ?s3))\<lparr>complete := Some False\<rparr>"
        "warned (step4 cap ?s3) = warned ?s3 @ [trimWarning]"
        "length (blocks (res ?s3)) - k \<le> 1 \<or> jsonSizeBytes (dropped k (res ?s3)) \<le> cap"
      by blast
    have kl: "k \<le> length rest" using k(1) by (simp add: bs(1) lbs)
    with k(4) big [OF kl] have "k = length rest" by (simp add: bs(1) lbs)
    then have "res ?T = (r\<lparr>blocks := [TextBlock s],
                   hits := take (length (hits r) - length rest) (hits r)\<rparr>)\<lparr>complete := Some False\<rparr>"
      unfolding T k(2) by (simp add: dropped_def bs(1) xs)
    moreover have "warned ?T = [trimWarning]" unfolding T k(3) w3 by simp
    ultimately show ?thesis by simp
  qed
  from first tiny show ?thesis by blast
qed

theorem tiny_budget_keeps_summary_only_witness:
  "blocks farOver = TextBlock (js ''Found 2 results across 1 repo.'') # tl (blocks farOver) \<and>
   CAP_BYTES < jsonSizeBytes (farOver\<lparr>blocks := [TextBlock (js ''Found 2 results across 1 repo.'')], hits := []\<rparr>) \<and>
   length (tl (blocks farOver)) = 3 \<and> length (hits farOver) = 2 \<and>
   blocks (res (trimPayload 2 farOver)) = [TextBlock (js ''Found 2 results across 1 repo.'')] \<and>
   hits (res (trimPayload 2 farOver)) = [] \<and>
   complete (res (trimPayload 2 farOver)) = Some False \<and>
   warned (trimPayload 2 farOver) = [trimWarning]"
proof -
  let ?s = "js ''Found 2 results across 1 repo.''"
  have T: "trimPayload 2 farOver = trimWith CAP_BYTES SHRUNK_SNIPPET_CHAR_CAP MIN_SNIPPET_CHAR_FLOOR 2 farOver"
    by (simp add: trimPayload_def)
  have h: "blocks farOver = TextBlock ?s # tl (blocks farOver)"
    "length (tl (blocks farOver)) = 3" "length (hits farOver) = 2"
    by (simp_all add: farOver_def tinyResult_def)
  have small: "CAP_BYTES < jsonSizeBytes (farOver\<lparr>blocks := [TextBlock ?s], hits := []\<rparr>)"
    by (simp add: tinyResult_sizes CAP_BYTES_def)
  from tiny_budget_keeps_summary_only [OF h(1), where cap = CAP_BYTES and shrunk = SHRUNK_SNIPPET_CHAR_CAP
      and floorCap = MIN_SNIPPET_CHAR_FLOOR and n = 2] small h(2,3)
  have "blocks (res (trimPayload 2 farOver)) = [TextBlock ?s]"
    "hits (res (trimPayload 2 farOver)) = []"
    "complete (res (trimPayload 2 farOver)) = Some False"
    "warned (trimPayload 2 farOver) = [trimWarning]"
    unfolding T by simp_all
  with h small show ?thesis by blast
qed

end
